theory Spec2Isabelle
  imports
    Main
    "HOL-Library.Word"
    "HOL-Library.List_Lexorder"
    "HOL-Library.Product_Lexorder"
begin

section \<open>Data model of \<open>src/lib/storage.js\<close>\<close>

text \<open>
  Hashes, channel ids and payloads are Node \<open>Buffer\<close>s: sequences of bytes. Both
  \<open>Buffer.compare\<close> and the comparison of BLOB values in the database are the
  lexicographic order on unsigned bytes, a proper prefix first; that is the order of
  \<open>HOL-Library.List_Lexorder\<close> on lists of 8-bit words.
\<close>

type_synonym byte = "8 word"
type_synonym bytes = "byte list"

text \<open>The object handed to \<open>addMessage\<close>: the fields the method reads.\<close>

record message =
  channelId :: bytes
  hash :: bytes
  parents :: "bytes list"
  height :: int
  data :: bytes

text \<open>A row of table \<open>messages(channel_id, hash, parent_hashes, height, blob)\<close>.\<close>

record message_row =
  channel_id :: bytes
  hash_col :: bytes
  parent_hashes :: bytes
  height_col :: int
  blob :: bytes

text \<open>
  The database: table \<open>messages\<close> and table \<open>parents(channel_id, hash)\<close>, each a
  list of rows in insertion order. Both tables declare \<open>PRIMARY KEY(hash ASC)\<close>.
  Table \<open>entities\<close> is left out: no operation on messages reads or writes it.
\<close>

record store =
  messages_tbl :: "message_row list"
  parents_tbl :: "(bytes \<times> bytes) list"

datatype error =
    InvalidHash          \<comment> \<open>\<open>throw new Error('Invalid hash')\<close>\<close>
  | BackwardByHeight     \<comment> \<open>\<open>throw new Error('Backwards query by height is not supported')\<close>\<close>
  | TypeError            \<comment> \<open>reading \<open>.blob\<close> of \<open>undefined\<close>\<close>

section \<open>Hash list codec\<close>

text \<open>
  \<open>encodeHashList\<close>, first loop: the size of the buffer, or the throw at the first
  element longer than \<open>0xff\<close>.
\<close>

fun encodedSize :: "bytes list \<Rightarrow> nat \<Rightarrow> error + nat" where
  "encodedSize [] sz = Inr sz"
| "encodedSize (elem # rest) sz =
     (if length elem > 255 then Inl InvalidHash
      else encodedSize rest (sz + (1 + length elem)))"

text \<open>
  Second loop: the length byte (a store into a \<open>Buffer\<close> keeps the low 8 bits), then
  the element's bytes.
\<close>

fun writeHashes :: "bytes list \<Rightarrow> bytes" where
  "writeHashes [] = []"
| "writeHashes (elem # rest) = (word_of_nat (length elem) :: byte) # elem @ writeHashes rest"

definition encodeHashList :: "bytes list \<Rightarrow> error + bytes" where
  "encodeHashList list =
     (case encodedSize list 0 of
        Inl e \<Rightarrow> Inl e
      | Inr sz \<Rightarrow> Inr (take sz (writeHashes list @ replicate sz 0)))"

text \<open>
  \<open>decodeHashList\<close>: the loop runs while \<open>offset < data.length\<close>; \<open>data.slice\<close>
  clamps to the end of the buffer. The argument is the part of \<open>data\<close> from
  \<open>offset\<close> on.
\<close>

fun decodeHashList :: "bytes \<Rightarrow> bytes list" where
  "decodeHashList [] = []"
| "decodeHashList (len # rest) =
     take (unat len) rest # decodeHashList (drop (unat len) rest)"

section \<open>Statements of the database engine\<close>

text \<open>
  \<open>ORDER BY\<close>: the rows sorted under the comparison given (insertion sort; no two
  rows of a table with a primary key on \<open>hash\<close> compare equal under the orders used
  below). The same function is the stable \<open>Array.prototype.sort\<close> of \<open>getMessages\<close>.
\<close>

fun insert_by :: "('a \<Rightarrow> 'a \<Rightarrow> bool) \<Rightarrow> 'a \<Rightarrow> 'a list \<Rightarrow> 'a list" where
  "insert_by le x [] = [x]"
| "insert_by le x (y # ys) = (if le x y then x # y # ys else y # insert_by le x ys)"

definition order_by :: "('a \<Rightarrow> 'a \<Rightarrow> bool) \<Rightarrow> 'a list \<Rightarrow> 'a list" where
  "order_by le rows = foldr (insert_by le) rows []"

text \<open>\<open>ORDER BY height ASC, hash ASC\<close> and \<open>ORDER BY height DESC, hash DESC\<close>.\<close>

definition crdt_asc :: "message_row \<Rightarrow> message_row \<Rightarrow> bool" where
  "crdt_asc a b \<longleftrightarrow> (height_col a, hash_col a) \<le> (height_col b, hash_col b)"

definition crdt_desc :: "message_row \<Rightarrow> message_row \<Rightarrow> bool" where
  "crdt_desc a b \<longleftrightarrow> (height_col a, hash_col a) \<ge> (height_col b, hash_col b)"

definition hash_asc :: "message_row \<Rightarrow> message_row \<Rightarrow> bool" where
  "hash_asc a b \<longleftrightarrow> hash_col a \<le> hash_col b"

text \<open>\<open>LIMIT n\<close> and \<open>OFFSET n\<close>: a negative limit is no limit, a negative offset is 0.\<close>

definition sql_limit :: "int \<Rightarrow> 'a list \<Rightarrow> 'a list" where
  "sql_limit n rows = (if n < 0 then rows else take (nat n) rows)"

definition sql_offset :: "int \<Rightarrow> 'a list \<Rightarrow> 'a list" where
  "sql_offset n rows = (if n < 0 then rows else drop (nat n) rows)"

text \<open>
  \<open>REPLACE INTO\<close>: the rows that conflict with the new row on the primary key are
  deleted, then the new row is inserted. The key of both tables is \<open>hash\<close> alone.
\<close>

definition replace_into_messages :: "message_row \<Rightarrow> message_row list \<Rightarrow> message_row list" where
  "replace_into_messages r tbl = filter (\<lambda>x. hash_col x \<noteq> hash_col r) tbl @ [r]"

definition replace_into_parents ::
  "bytes \<times> bytes \<Rightarrow> (bytes \<times> bytes) list \<Rightarrow> (bytes \<times> bytes) list" where
  "replace_into_parents e tbl = filter (\<lambda>x. snd x \<noteq> snd e) tbl @ [e]"

section \<open>Messages\<close>

definition empty_store :: store where
  "empty_store = \<lparr>messages_tbl = [], parents_tbl = []\<rparr>"

text \<open>
  \<open>addMessage\<close>. The arguments of the first \<open>REPLACE\<close> are evaluated before it is
  issued, so a throw of \<open>encodeHashList\<close> leaves both tables as they were. The result
  is the outcome of the call and the tables after it.
\<close>

definition addMessage :: "store \<Rightarrow> message \<Rightarrow> (error + unit) \<times> store" where
  "addMessage s m =
     (case encodeHashList (parents m) of
        Inl e \<Rightarrow> (Inl e, s)
      | Inr parentHashes \<Rightarrow>
          (Inr (),
           \<lparr>messages_tbl =
              replace_into_messages
                \<lparr>channel_id = channelId m, hash_col = hash m, parent_hashes = parentHashes,
                 height_col = height m, blob = data m\<rparr>
                (messages_tbl s),
            parents_tbl =
              fold (\<lambda>parentHash. replace_into_parents (channelId m, parentHash))
                (parents m) (parents_tbl s)\<rparr>))"

definition in_channel :: "store \<Rightarrow> bytes \<Rightarrow> message_row list" where
  "in_channel s c = filter (\<lambda>r. channel_id r = c) (messages_tbl s)"

definition getMessageCount :: "store \<Rightarrow> bytes \<Rightarrow> nat" where
  "getMessageCount s c = length (in_channel s c)"

definition getLeafHashes :: "store \<Rightarrow> bytes \<Rightarrow> bytes list" where
  "getLeafHashes s c =
     map hash_col
       (filter (\<lambda>r. channel_id r = c \<and>
                    hash_col r \<notin> set (map snd (filter (\<lambda>e. fst e = c) (parents_tbl s))))
          (messages_tbl s))"

definition hasMessage :: "store \<Rightarrow> bytes \<Rightarrow> bytes \<Rightarrow> bool" where
  "hasMessage s c h \<longleftrightarrow> length (filter (\<lambda>r. channel_id r = c \<and> hash_col r = h) (messages_tbl s)) \<noteq> 0"

definition getMessage :: "store \<Rightarrow> bytes \<Rightarrow> bytes \<Rightarrow> bytes option" where
  "getMessage s c h =
     (case filter (\<lambda>r. channel_id r = c \<and> hash_col r = h) (messages_tbl s) of
        [] \<Rightarrow> None
      | row # _ \<Rightarrow> Some (blob row))"

subsection \<open>\<open>getMessages\<close>\<close>

definition MAX_VARIABLE_COUNT :: nat where
  "MAX_VARIABLE_COUNT = 900"

text \<open>\<open>SELECT blob FROM messages WHERE channel_id == ? AND hash IN (...) ORDER BY hash\<close>.\<close>

definition select_blobs :: "store \<Rightarrow> bytes \<Rightarrow> bytes list \<Rightarrow> bytes list" where
  "select_blobs s c partialHashes =
     map blob
       (order_by hash_asc
          (filter (\<lambda>r. channel_id r = c \<and> hash_col r \<in> set partialHashes) (messages_tbl s)))"

text \<open>The loop over \<open>offset\<close>: one statement per slice of \<open>MAX_VARIABLE_COUNT\<close> hashes.\<close>

function fetch_rows :: "store \<Rightarrow> bytes \<Rightarrow> bytes list \<Rightarrow> nat \<Rightarrow> bytes list \<Rightarrow> bytes list" where
  "fetch_rows s c hashes offset rows =
     (if offset < length hashes then
        fetch_rows s c hashes (offset + MAX_VARIABLE_COUNT)
          (rows @ select_blobs s c (take MAX_VARIABLE_COUNT (drop offset hashes)))
      else rows)"
  by pat_completeness auto
termination
  by (relation "measure (\<lambda>(s, c, hashes, offset, rows). length hashes - offset)")
     (auto simp: MAX_VARIABLE_COUNT_def)

declare fetch_rows.simps [simp del]

text \<open>The indices of \<open>hashes\<close>, sorted by the hash at each index.\<close>

definition sorted_order :: "bytes list \<Rightarrow> nat list" where
  "sorted_order hashes =
     map fst (order_by (\<lambda>a b. snd a \<le> snd b) (enumerate 0 hashes))"

text \<open>
  The last loop: \<open>result[target] = rows[i].blob\<close>. Where \<open>rows[i]\<close> is \<open>undefined\<close> the
  read of \<open>.blob\<close> throws. A slot of \<open>new Array(n)\<close> not yet written is \<open>None\<close>.
\<close>

fun assign_results ::
  "nat list \<Rightarrow> nat \<Rightarrow> bytes list \<Rightarrow> bytes option list \<Rightarrow> error + bytes option list" where
  "assign_results [] i rows result = Inr result"
| "assign_results (target # rest) i rows result =
     (if i < length rows
      then assign_results rest (Suc i) rows (result[target := Some (rows ! i)])
      else Inl TypeError)"

definition getMessages :: "store \<Rightarrow> bytes \<Rightarrow> bytes list \<Rightarrow> error + bytes option list" where
  "getMessages s c hashes =
     assign_results (sorted_order hashes) 0 (fetch_rows s c hashes 0 [])
       (replicate (length hashes) None)"

subsection \<open>Windows of the CRDT order\<close>

definition getHashesAtOffset :: "store \<Rightarrow> bytes \<Rightarrow> int \<Rightarrow> int \<Rightarrow> bytes list" where
  "getHashesAtOffset s c offset limit =
     map hash_col (sql_limit limit (sql_offset offset (order_by crdt_asc (in_channel s c))))"

definition getReverseHashesAtOffset :: "store \<Rightarrow> bytes \<Rightarrow> int \<Rightarrow> int \<Rightarrow> bytes list" where
  "getReverseHashesAtOffset s c offset limit =
     map hash_col (sql_limit limit (sql_offset offset (order_by crdt_desc (in_channel s c))))"

subsection \<open>\<open>query\<close>\<close>

datatype cursor = CursorHash bytes | CursorHeight int

record query_result =
  abbreviatedMessages :: "(bytes \<times> bytes list) list"
  backwardHash :: "bytes option"
  forwardHash :: "bytes option"

text \<open>
  The two conditions of the statement anchored by a hash, on a row of \<open>messages\<close> and
  the row \<open>original\<close> it is joined with.
\<close>

definition before_original :: "message_row \<Rightarrow> message_row \<Rightarrow> bool" where
  "before_original m original \<longleftrightarrow>
     height_col m < height_col original \<or>
     (height_col m = height_col original \<and> hash_col m < hash_col original)"

definition from_original :: "message_row \<Rightarrow> message_row \<Rightarrow> bool" where
  "from_original m original \<longleftrightarrow>
     height_col m > height_col original \<or>
     (height_col m = height_col original \<and> hash_col m \<ge> hash_col original)"

text \<open>
  The statement \<open>query\<close> builds and runs: \<open>messages JOIN messages AS original\<close> for a
  hash cursor, \<open>messages\<close> alone for a height cursor, which throws when backward.
\<close>

definition select_rows ::
  "store \<Rightarrow> bytes \<Rightarrow> cursor \<Rightarrow> bool \<Rightarrow> int \<Rightarrow> error + message_row list" where
  "select_rows s c cur isBackward lim =
     (case cur of
        CursorHash h \<Rightarrow>
          Inr (map fst
            (sql_limit lim
              (order_by (\<lambda>a b. if isBackward then crdt_desc (fst a) (fst b)
                                else crdt_asc (fst a) (fst b))
                (filter (\<lambda>(m, original).
                    channel_id m = c \<and> channel_id original = channel_id m \<and>
                    hash_col original = h \<and>
                    (if isBackward then before_original m original
                     else from_original m original))
                  (List.product (messages_tbl s) (messages_tbl s))))))
      | CursorHeight ht \<Rightarrow>
          if isBackward then Inl BackwardByHeight
          else Inr (sql_limit lim
                 (order_by crdt_asc
                   (filter (\<lambda>m. channel_id m = c \<and> height_col m \<ge> ht) (messages_tbl s)))))"

definition cursor_hash :: "cursor \<Rightarrow> bytes option" where
  "cursor_hash cur = (case cur of CursorHash h \<Rightarrow> Some h | CursorHeight ht \<Rightarrow> None)"

definition abbreviate :: "message_row \<Rightarrow> bytes \<times> bytes list" where
  "abbreviate row = (hash_col row, decodeHashList (parent_hashes row))"

definition query :: "store \<Rightarrow> bytes \<Rightarrow> cursor \<Rightarrow> bool \<Rightarrow> int \<Rightarrow> error + query_result" where
  "query s c cur isBackward limit0 =
     (let limit = max 0 limit0 in
      case select_rows s c cur isBackward (limit + 1) of
        Inl e \<Rightarrow> Inl e
      | Inr fetched \<Rightarrow>
          let rows = (if isBackward then rev fetched else fetched);
              mapped = map abbreviate rows
          in if isBackward then
               Inr \<lparr>abbreviatedMessages =
                      (if int (length rows) > limit then drop 1 mapped else mapped),
                    backwardHash =
                      (if int (length rows) > limit then Some (hash_col (rows ! 0)) else None),
                    forwardHash = cursor_hash cur\<rparr>
             else
               Inr \<lparr>abbreviatedMessages =
                      (if int (length rows) > limit then butlast mapped else mapped),
                    backwardHash =
                      (if length rows > 0 then Some (hash_col (rows ! 0)) else None),
                    forwardHash =
                      (if int (length rows) > limit
                       then Some (hash_col (rows ! (length rows - 1))) else None)\<rparr>)"

subsection \<open>Deleting\<close>

definition removeChannelMessages :: "store \<Rightarrow> bytes \<Rightarrow> store" where
  "removeChannelMessages s c =
     \<lparr>messages_tbl = filter (\<lambda>r. channel_id r \<noteq> c) (messages_tbl s),
      parents_tbl = filter (\<lambda>e. fst e \<noteq> c) (parents_tbl s)\<rparr>"

definition clear :: "store \<Rightarrow> store" where
  "clear s = \<lparr>messages_tbl = [], parents_tbl = []\<rparr>"

section \<open>The stores of the test suite\<close>

text \<open>
  \<open>msg(hash, height, parents)\<close> of the test suite, with one-byte hashes and a
  two-byte payload, and the store after a sequence of \<open>addMessage\<close> calls.
\<close>

definition channel_A :: bytes where "channel_A = [1]"
definition channel_B :: bytes where "channel_B = [2]"

definition msg :: "bytes \<Rightarrow> byte \<Rightarrow> int \<Rightarrow> byte list \<Rightarrow> message" where
  "msg c h ht ps =
     \<lparr>channelId = c, hash = [h], parents = map (\<lambda>p. [p]) ps, height = ht, data = [h, h]\<rparr>"

definition add_all :: "message list \<Rightarrow> store \<Rightarrow> store" where
  "add_all ms s = fold (\<lambda>m st. snd (addMessage st m)) ms s"

text \<open>The four messages \<open>a\<close>, \<open>c\<close>, \<open>b\<close>, \<open>d\<close> of the tests, inserted in that order.\<close>

definition four_messages :: store where
  "four_messages =
     add_all [msg channel_A 97 0 [], msg channel_A 99 1 [97], msg channel_A 98 1 [97],
              msg channel_A 100 2 [98, 99]] empty_store"

text \<open>Two channels whose messages name the same parent \<open>a\<close>.\<close>

definition two_channels :: store where
  "two_channels =
     add_all [msg channel_A 97 0 [], msg channel_A 98 1 [97], msg channel_B 99 1 [97]]
       empty_store"

text \<open>The message \<open>b\<close> inserted with the parent \<open>a\<close>, then again with no parent.\<close>

definition replaced_parent :: store where
  "replaced_parent =
     add_all [msg channel_A 97 0 [], msg channel_A 98 1 [97], msg channel_A 98 0 []]
       empty_store"

text \<open>
  The message \<open>b\<close> inserted with the parent \<open>a\<close> before \<open>a\<close> itself is stored, then
  again with no parent: the row of \<open>a\<close> in \<open>parents\<close> stays.
\<close>

definition stale_row :: store where
  "stale_row = add_all [msg channel_A 98 1 [97], msg channel_A 98 0 []] empty_store"

section \<open>Notions used to state the properties\<close>

text \<open>The key of the CRDT order: \<open>(height, hash)\<close>, compared lexicographically.\<close>

definition crdt_key :: "message_row \<Rightarrow> int \<times> bytes" where
  "crdt_key r = (height_col r, hash_col r)"

text \<open>
  What the specification says a forward page is, given the rows that satisfy the
  condition of the query in ascending order, and the clamped limit: the first \<open>limit\<close>
  rows, the hash of the first row (if any) and the hash of row \<open>limit + 1\<close> (if any).
\<close>

definition forward_page :: "message_row list \<Rightarrow> nat \<Rightarrow> query_result" where
  "forward_page matching limit =
     \<lparr>abbreviatedMessages = map abbreviate (take limit matching),
      backwardHash = (case matching of [] \<Rightarrow> None | first # _ \<Rightarrow> Some (hash_col first)),
      forwardHash =
        (if limit < length matching then Some (hash_col (matching ! limit)) else None)\<rparr>"

text \<open>
  The page of a backward query as the code builds it, given the rows before the anchor
  in ascending order: the last \<open>limit\<close> of them, as \<open>backwardHash\<close> the hash of the
  row just before those (if any), as \<open>forwardHash\<close> the anchor hash.
\<close>

definition backward_page :: "message_row list \<Rightarrow> bytes \<Rightarrow> nat \<Rightarrow> query_result" where
  "backward_page preceding anchorHash limit =
     \<lparr>abbreviatedMessages = map abbreviate (drop (length preceding - limit) preceding),
      backwardHash =
        (if limit < length preceding
         then Some (hash_col (preceding ! (length preceding - limit - 1))) else None),
      forwardHash = Some anchorHash\<rparr>"

text \<open>The primary keys of the two tables: no two rows of a table have one hash.\<close>

definition primary_keys :: "store \<Rightarrow> bool" where
  "primary_keys s \<longleftrightarrow>
     distinct (map hash_col (messages_tbl s)) \<and> distinct (map snd (parents_tbl s))"

text \<open>The stores the operations that write can produce from the empty database.\<close>

inductive reachable :: "store \<Rightarrow> bool" where
  opened: "reachable empty_store"
| added: "reachable s \<Longrightarrow> reachable (snd (addMessage s m))"
| removed: "reachable s \<Longrightarrow> reachable (removeChannelMessages s c)"
| cleared: "reachable s \<Longrightarrow> reachable (clear s)"

text \<open>
  The leaf set in the words of the specification: a hash is referenced in a channel
  when a message stored in that channel lists it among its parents, and the leaves of
  the channel are the hashes of its messages that are not referenced in it.
\<close>

definition referenced :: "store \<Rightarrow> bytes \<Rightarrow> bytes \<Rightarrow> bool" where
  "referenced s c h \<longleftrightarrow>
     (\<exists>m \<in> set (messages_tbl s). channel_id m = c \<and> h \<in> set (decodeHashList (parent_hashes m)))"

definition unreferenced_hashes :: "store \<Rightarrow> bytes \<Rightarrow> bytes list" where
  "unreferenced_hashes s c =
     map hash_col
       (filter (\<lambda>r. channel_id r = c \<and> \<not> referenced s c (hash_col r)) (messages_tbl s))"

text \<open>
  The stores reached from the empty store by \<open>removeChannelMessages\<close> and by
  successful \<open>addMessage\<close> calls whose hash is not stored yet, or is stored with the
  same channel and the same parents, and which list as parents no hash whose row of
  \<open>parents\<close> belongs to another channel.
\<close>

inductive unshared_run :: "store \<Rightarrow> bool" where
  start: "unshared_run empty_store"
| add: "unshared_run s \<Longrightarrow> fst (addMessage s m) = Inr () \<Longrightarrow>
        (\<forall>r \<in> set (messages_tbl s). hash_col r = hash m \<longrightarrow>
           channel_id r = channelId m \<and> decodeHashList (parent_hashes r) = parents m) \<Longrightarrow>
        (\<forall>e \<in> set (parents_tbl s). snd e \<in> set (parents m) \<longrightarrow> fst e = channelId m) \<Longrightarrow>
        unshared_run (snd (addMessage s m))"
| remove: "unshared_run s \<Longrightarrow> unshared_run (removeChannelMessages s c)"

text \<open>The rows of \<open>parents\<close> are exactly the references between stored messages.\<close>

definition edges_exact :: "store \<Rightarrow> bool" where
  "edges_exact s \<longleftrightarrow> (\<forall>c h. (c, h) \<in> set (parents_tbl s) \<longleftrightarrow> referenced s c h)"

text \<open>
  No stale row of \<open>parents\<close> names the hash of the message \<open>m\<close> about to be added: if
  a row names it under the channel of \<open>m\<close>, then \<open>m\<close> lists its own hash, or a message
  stored in that channel, other than the one \<open>m\<close> replaces, lists it.
\<close>

definition no_stale_row :: "store \<Rightarrow> message \<Rightarrow> bool" where
  "no_stale_row s m \<longleftrightarrow>
     ((channelId m, hash m) \<in> set (parents_tbl s) \<longrightarrow>
        hash m \<in> set (parents m) \<or>
        (\<exists>r \<in> set (messages_tbl s). hash_col r \<noteq> hash m \<and> channel_id r = channelId m \<and>
            hash m \<in> set (decodeHashList (parent_hashes r))))"

section \<open>Properties\<close>

subsection \<open>Properties of the codec\<close>

lemma encodedSize_ok:
  "\<forall>elem \<in> set list. length elem \<le> 255 \<Longrightarrow>
   encodedSize list sz = Inr (sz + length (writeHashes list))"
  by (induction list arbitrary: sz) auto

lemma encodedSize_fails:
  "\<exists>elem \<in> set list. length elem > 255 \<Longrightarrow> encodedSize list sz = Inl InvalidHash"
  by (induction list arbitrary: sz) auto

lemma encodeHashList_ok:
  "\<forall>elem \<in> set list. length elem \<le> 255 \<Longrightarrow> encodeHashList list = Inr (writeHashes list)"
  by (simp add: encodeHashList_def encodedSize_ok)

lemma encodeHashList_fails:
  "\<exists>elem \<in> set list. length elem > 255 \<Longrightarrow> encodeHashList list = Inl InvalidHash"
  by (simp add: encodeHashList_def encodedSize_fails)

lemma unat_length_byte:
  "length elem \<le> 255 \<Longrightarrow> unat (word_of_nat (length elem) :: byte) = length elem"
  by (simp add: unat_of_nat)

lemma decode_writeHashes:
  "\<forall>elem \<in> set list. length elem \<le> 255 \<Longrightarrow> decodeHashList (writeHashes list) = list"
  by (induction list) (simp_all add: unat_length_byte)

text \<open>
  Claim C7. For every sequence of hashes each at most 255 bytes long (empty elements
  and the empty sequence included), encoding succeeds and decoding the encoded buffer
  gives the sequence back, element for element.
\<close>

theorem codec_roundtrip:
  assumes "\<forall>elem \<in> set xs. length elem \<le> 255"
  shows "\<exists>buf. encodeHashList xs = Inr buf \<and> decodeHashList buf = xs"
  using assms by (simp add: encodeHashList_ok decode_writeHashes)

theorem codec_roundtrip_witness:
  "encodeHashList [[], [1, 2, 3 :: byte], []] = Inr [0, 3, 1, 2, 3, 0] \<and>
   decodeHashList [0, 3, 1, 2, 3, 0] = [[], [1, 2, 3 :: byte], []]"
proof -
  have h: "\<forall>elem \<in> set [[], [1, 2, 3 :: byte], []]. length elem \<le> 255"
    by simp
  have e: "encodeHashList [[], [1, 2, 3 :: byte], []] = Inr [0, 3, 1, 2, 3, 0]"
    by (simp add: encodeHashList_def)
  show ?thesis
    using codec_roundtrip [OF h] e by simp
qed

subsection \<open>The example stores, evaluated\<close>

lemmas eval_defs = add_all_def msg_def addMessage_def encodeHashList_def empty_store_def
  replace_into_messages_def replace_into_parents_def channel_A_def channel_B_def

lemmas query_defs = query_def select_rows_def sql_limit_def order_by_def crdt_desc_def
  crdt_asc_def before_original_def from_original_def abbreviate_def cursor_hash_def

lemma four_messages_eq:
  "four_messages =
    \<lparr>messages_tbl =
      [\<lparr>channel_id = [1], hash_col = [97], parent_hashes = [], height_col = 0,
        blob = [97, 97]\<rparr>,
       \<lparr>channel_id = [1], hash_col = [99], parent_hashes = [1, 97], height_col = 1,
        blob = [99, 99]\<rparr>,
       \<lparr>channel_id = [1], hash_col = [98], parent_hashes = [1, 97], height_col = 1,
        blob = [98, 98]\<rparr>,
       \<lparr>channel_id = [1], hash_col = [100], parent_hashes = [1, 98, 1, 99], height_col = 2,
        blob = [100, 100]\<rparr>],
     parents_tbl = [([1], [97]), ([1], [98]), ([1], [99])]\<rparr>"
  by (simp add: four_messages_def eval_defs)

lemma two_channels_eq:
  "two_channels =
    \<lparr>messages_tbl =
      [\<lparr>channel_id = [1], hash_col = [97], parent_hashes = [], height_col = 0,
        blob = [97, 97]\<rparr>,
       \<lparr>channel_id = [1], hash_col = [98], parent_hashes = [1, 97], height_col = 1,
        blob = [98, 98]\<rparr>,
       \<lparr>channel_id = [2], hash_col = [99], parent_hashes = [1, 97], height_col = 1,
        blob = [99, 99]\<rparr>],
     parents_tbl = [([2], [97])]\<rparr>"
  by (simp add: two_channels_def eval_defs)

subsection \<open>The primary keys hold in every reachable store\<close>

text \<open>
  Several properties below are stated over a store whose \<open>messages\<close> table has no two
  rows with one hash, \<open>distinct (map hash_col (messages_tbl s))\<close>. \<open>REPLACE INTO\<close>
  keeps it so: it holds in every reachable store.
\<close>

lemma distinct_replace_into_messages:
  "distinct (map hash_col tbl) \<Longrightarrow> distinct (map hash_col (replace_into_messages r tbl))"
  by (auto simp: replace_into_messages_def distinct_map_filter)

lemma distinct_replace_into_parents:
  "distinct (map snd tbl) \<Longrightarrow> distinct (map snd (replace_into_parents e tbl))"
  by (auto simp: replace_into_parents_def distinct_map_filter)

lemma distinct_fold_replace:
  "distinct (map snd tbl) \<Longrightarrow>
   distinct (map snd (fold (\<lambda>p. replace_into_parents (c, p)) ps tbl))"
  by (induction ps arbitrary: tbl) (simp_all add: distinct_replace_into_parents)

lemma primary_keys_addMessage:
  assumes "primary_keys s"
  shows "primary_keys (snd (addMessage s m))"
proof (cases "encodeHashList (parents m)")
  case (Inl e)
  then show ?thesis using assms by (simp add: addMessage_def)
next
  case (Inr buf)
  then show ?thesis
    using assms
    by (simp add: addMessage_def primary_keys_def distinct_replace_into_messages
        distinct_fold_replace)
qed

lemma primary_keys_remove:
  "primary_keys s \<Longrightarrow> primary_keys (removeChannelMessages s c)"
  by (simp add: primary_keys_def removeChannelMessages_def distinct_map_filter)

lemma reachable_primary_keys: "reachable s \<Longrightarrow> primary_keys s"
proof (induction rule: reachable.induct)
  case opened
  show ?case by (simp add: primary_keys_def empty_store_def)
next
  case (added s m)
  then show ?case by (simp add: primary_keys_addMessage)
next
  case (removed s c)
  then show ?case by (simp add: primary_keys_remove)
next
  case (cleared s)
  show ?case by (simp add: primary_keys_def clear_def)
qed

lemma reachable_add_all: "reachable s \<Longrightarrow> reachable (add_all ms s)"
  unfolding add_all_def by (induction ms arbitrary: s) (simp_all add: reachable.added)

subsection \<open>\<open>addMessage\<close> and the encoding error\<close>

text \<open>
  Claim C8. For every message whose \<open>parents\<close> list contains a hash longer than 255
  bytes, \<open>addMessage\<close> fails with the error of \<open>encodeHashList\<close> and writes nothing:
  both tables after the failed call are the tables before it.
\<close>

theorem addMessage_long_parent_writes_nothing:
  assumes "\<exists>p \<in> set (parents m). length p > 255"
  shows "fst (addMessage s m) = Inl InvalidHash \<and> snd (addMessage s m) = s"
  using assms by (simp add: addMessage_def encodeHashList_fails)

theorem addMessage_long_parent_witness:
  "fst (addMessage four_messages
     \<lparr>channelId = [1], hash = [101], parents = [[97], replicate 256 0], height = 1,
      data = []\<rparr>)
     = Inl InvalidHash \<and>
   snd (addMessage four_messages
     \<lparr>channelId = [1], hash = [101], parents = [[97], replicate 256 0], height = 1,
      data = []\<rparr>)
     = four_messages"
  using addMessage_long_parent_writes_nothing
    [of "\<lparr>channelId = [1], hash = [101], parents = [[97], replicate 256 0], height = 1,
          data = []\<rparr>" four_messages]
  by simp

subsection \<open>\<open>removeChannelMessages\<close>\<close>

lemma remove_in_channel_self: "in_channel (removeChannelMessages s a) a = []"
  by (simp add: in_channel_def removeChannelMessages_def)

lemma remove_in_channel_other:
  "a \<noteq> b \<Longrightarrow> in_channel (removeChannelMessages s a) b = in_channel s b"
  by (auto simp: in_channel_def removeChannelMessages_def intro: filter_cong)

lemma remove_leaves_self: "getLeafHashes (removeChannelMessages s a) a = []"
  by (simp add: getLeafHashes_def removeChannelMessages_def)

lemma remove_edges_other:
  "a \<noteq> b \<Longrightarrow> filter (\<lambda>e. fst e = b) (parents_tbl (removeChannelMessages s a))
     = filter (\<lambda>e. fst e = b) (parents_tbl s)"
  by (auto simp: removeChannelMessages_def intro: filter_cong)

lemma remove_leaves_other:
  assumes "a \<noteq> b"
  shows "getLeafHashes (removeChannelMessages s a) b = getLeafHashes s b"
proof -
  have "filter (\<lambda>r. channel_id r = b \<and> P r) (filter (\<lambda>r. channel_id r \<noteq> a) xs)
      = filter (\<lambda>r. channel_id r = b \<and> P r) xs" for P and xs :: "message_row list"
    using assms by (auto intro: filter_cong)
  then show ?thesis
    unfolding getLeafHashes_def remove_edges_other [OF assms]
    by (simp add: removeChannelMessages_def)
qed

text \<open>
  Claim C5. For distinct channels \<open>a\<close> and \<open>b\<close>, after \<open>removeChannelMessages a\<close> no
  message row and no parent-edge row of \<open>a\<close> is left, its message count is zero and its
  leaf set empty, while the stored messages, the message count and the leaf set of \<open>b\<close>
  are what they were. The store is arbitrary: the two channels may name the same hashes
  as parents.
\<close>

theorem removeChannelMessages_frame:
  assumes "a \<noteq> b"
  shows "in_channel (removeChannelMessages s a) a = [] \<and>
         filter (\<lambda>e. fst e = a) (parents_tbl (removeChannelMessages s a)) = [] \<and>
         getMessageCount (removeChannelMessages s a) a = 0 \<and>
         getLeafHashes (removeChannelMessages s a) a = [] \<and>
         in_channel (removeChannelMessages s a) b = in_channel s b \<and>
         getMessageCount (removeChannelMessages s a) b = getMessageCount s b \<and>
         getLeafHashes (removeChannelMessages s a) b = getLeafHashes s b"
  using assms
  by (simp add: remove_in_channel_self remove_in_channel_other remove_leaves_self
      remove_leaves_other getMessageCount_def)
    (simp add: removeChannelMessages_def)

theorem removeChannelMessages_frame_witness:
  "getMessageCount two_channels channel_A = 2 \<and>
   getMessageCount (removeChannelMessages two_channels channel_A) channel_A = 0 \<and>
   getLeafHashes (removeChannelMessages two_channels channel_A) channel_A = [] \<and>
   getMessageCount (removeChannelMessages two_channels channel_A) channel_B = 1 \<and>
   getLeafHashes (removeChannelMessages two_channels channel_A) channel_B = [[99]]"
proof -
  have ne: "channel_A \<noteq> channel_B"
    by (simp add: channel_A_def channel_B_def)
  have "getMessageCount two_channels channel_A = 2"
    and "getMessageCount two_channels channel_B = 1"
    and "getLeafHashes two_channels channel_B = [[99]]"
    by (simp_all add: two_channels_eq getMessageCount_def in_channel_def getLeafHashes_def
        channel_A_def channel_B_def)
  then show ?thesis
    using removeChannelMessages_frame [OF ne, of two_channels] by simp
qed

subsection \<open>\<open>query\<close> with an anchor that is not stored\<close>

lemma no_anchor_no_rows:
  assumes "\<not> hasMessage s c h"
  shows "select_rows s c (CursorHash h) isBackward lim = Inr []"
proof -
  have none: "\<And>r. r \<in> set (messages_tbl s) \<Longrightarrow> \<not> (channel_id r = c \<and> hash_col r = h)"
    using assms by (auto simp: hasMessage_def filter_empty_conv)
  have "filter (\<lambda>(m, original).
           channel_id m = c \<and> channel_id original = channel_id m \<and> hash_col original = h \<and>
           (if isBackward then before_original m original else from_original m original))
         (List.product (messages_tbl s) (messages_tbl s)) = []"
    using none by (auto simp: filter_empty_conv)
  then show ?thesis
    by (simp add: select_rows_def order_by_def sql_limit_def)
qed

text \<open>
  Claim C3, as stated: for both directions a query anchored at a hash that is not stored
  in the channel returns an empty page and \<open>null\<close> for both cursors. The backward query
  sets \<open>forwardHash = cursor.hash\<close> whatever was fetched: anchored at the hash \<open>x\<close>,
  which \<open>four_messages\<close> does not hold, its \<open>forwardHash\<close> is \<open>x\<close>.
\<close>

theorem query_missing_anchor_backward_counterexample:
  "\<not> hasMessage four_messages channel_A [120] \<and>
   query four_messages channel_A (CursorHash [120]) True 2 \<noteq>
     Inr \<lparr>abbreviatedMessages = [], backwardHash = None, forwardHash = None\<rparr>"
  by (simp add: four_messages_eq hasMessage_def channel_A_def query_defs)

text \<open>
  Claim C3, amended. For every channel and every limit, a query anchored at a hash that
  is not stored in that channel returns an empty page; forward, both cursors are
  \<open>null\<close>; backward, \<open>backwardHash\<close> is \<open>null\<close> and \<open>forwardHash\<close> is the anchor hash.
\<close>

theorem query_missing_anchor:
  assumes "\<not> hasMessage s c h"
  shows "query s c (CursorHash h) False limit =
           Inr \<lparr>abbreviatedMessages = [], backwardHash = None, forwardHash = None\<rparr> \<and>
         query s c (CursorHash h) True limit =
           Inr \<lparr>abbreviatedMessages = [], backwardHash = None, forwardHash = Some h\<rparr>"
  by (simp add: query_def no_anchor_no_rows [OF assms] cursor_hash_def Let_def)

theorem query_missing_anchor_witness:
  "query four_messages channel_A (CursorHash [120]) False 2 =
     Inr \<lparr>abbreviatedMessages = [], backwardHash = None, forwardHash = None\<rparr> \<and>
   query four_messages channel_A (CursorHash [120]) True 2 =
     Inr \<lparr>abbreviatedMessages = [], backwardHash = None, forwardHash = Some [120]\<rparr>"
proof -
  have "\<not> hasMessage four_messages channel_A [120]"
    by (simp add: four_messages_eq hasMessage_def channel_A_def)
  then show ?thesis
    by (rule query_missing_anchor)
qed

subsection \<open>\<open>ORDER BY\<close> as sorting by a key\<close>

lemma insert_by_insort_key: "insert_by (\<lambda>a b. f a \<le> f b) x ys = insort_key f x ys"
  by (induction ys) simp_all

lemma order_by_sort_key: "order_by (\<lambda>a b. f a \<le> f b) xs = sort_key f xs"
  by (induction xs) (simp_all add: order_by_def insert_by_insort_key)

lemma insort_key_snoc:
  "\<forall>y \<in> set ys. f y < f x \<Longrightarrow> insort_key f x ys = ys @ [x]"
  by (induction ys) auto

lemma insort_key_before_last:
  "f x \<le> f z \<Longrightarrow> insort_key f x (zs @ [z]) = insort_key f x zs @ [z]"
  by (induction zs) auto

lemma insert_by_desc_rev:
  "sorted (map f ys) \<Longrightarrow> f x \<notin> f ` set ys \<Longrightarrow>
   insert_by (\<lambda>a b. f b \<le> f a) x (rev ys) = rev (insort_key f x ys)"
proof (induction ys rule: rev_induct)
  case Nil
  then show ?case by simp
next
  case (snoc z zs)
  have sorted_zs: "sorted (map f zs)" and le_z: "\<forall>y \<in> set zs. f y \<le> f z"
    using snoc.prems(1) by (auto simp: sorted_append)
  have neq: "f x \<noteq> f z" and notin: "f x \<notin> f ` set zs"
    using snoc.prems(2) by auto
  show ?case
  proof (cases "f z \<le> f x")
    case True
    then have "f z < f x" using neq by simp
    then have "\<forall>y \<in> set (zs @ [z]). f y < f x"
      using le_z by auto
    then have "insort_key f x (zs @ [z]) = (zs @ [z]) @ [x]"
      by (rule insort_key_snoc)
    then show ?thesis using True by simp
  next
    case False
    then have "f x \<le> f z" by simp
    then have "insort_key f x (zs @ [z]) = insort_key f x zs @ [z]"
      by (rule insort_key_before_last)
    then show ?thesis
      using False snoc.IH [OF sorted_zs notin] by simp
  qed
qed

lemma order_by_desc_rev:
  "distinct (map f xs) \<Longrightarrow> order_by (\<lambda>a b. f b \<le> f a) xs = rev (sort_key f xs)"
proof (induction xs)
  case Nil
  then show ?case by (simp add: order_by_def)
next
  case (Cons x xs)
  have "order_by (\<lambda>a b. f b \<le> f a) (x # xs)
      = insert_by (\<lambda>a b. f b \<le> f a) x (rev (sort_key f xs))"
    using Cons by (simp add: order_by_def)
  also have "\<dots> = rev (insort_key f x (sort_key f xs))"
    using Cons.prems by (intro insert_by_desc_rev) auto
  finally show ?case by simp
qed

lemma order_by_crdt_asc: "order_by crdt_asc xs = sort_key crdt_key xs"
proof -
  have eq: "crdt_asc = (\<lambda>a b. crdt_key a \<le> crdt_key b)"
    by (intro ext) (simp add: crdt_asc_def crdt_key_def)
  show ?thesis unfolding eq by (rule order_by_sort_key)
qed

lemma order_by_crdt_desc:
  "distinct (map crdt_key xs) \<Longrightarrow> order_by crdt_desc xs = rev (sort_key crdt_key xs)"
proof -
  assume d: "distinct (map crdt_key xs)"
  have eq: "crdt_desc = (\<lambda>a b. crdt_key b \<le> crdt_key a)"
    by (intro ext) (simp add: crdt_desc_def crdt_key_def)
  show ?thesis unfolding eq using d by (rule order_by_desc_rev)
qed

lemma order_by_hash_asc: "order_by hash_asc xs = sort_key hash_col xs"
proof -
  have eq: "hash_asc = (\<lambda>a b. hash_col a \<le> hash_col b)"
    by (intro ext) (simp add: hash_asc_def)
  show ?thesis unfolding eq by (rule order_by_sort_key)
qed

lemma distinct_hash_filter:
  "distinct (map hash_col xs) \<Longrightarrow> distinct (map hash_col (filter P xs))"
  by (rule distinct_map_filter)

lemma distinct_hash_crdt_key:
  "distinct (map hash_col xs) \<Longrightarrow> distinct (map crdt_key xs)"
proof -
  assume d: "distinct (map hash_col xs)"
  have "map hash_col xs = map snd (map crdt_key xs)"
    by (simp add: crdt_key_def comp_def)
  with d show ?thesis by (metis distinct_map)
qed

lemma sorted_key_unique:
  assumes "sorted (map f xs)" "distinct (map f xs)" "sorted (map f ys)" "distinct (map f ys)"
    "set xs = set ys"
  shows "xs = ys"
proof -
  have "map f xs = map f ys"
    using assms by (intro sorted_distinct_set_unique) auto
  moreover have "inj_on f (set xs \<union> set ys)"
    using assms(2,5) by (simp add: distinct_map)
  ultimately show ?thesis by (rule map_inj_on)
qed

subsection \<open>The statement of a query anchored by a stored hash\<close>

lemma filter_product:
  "filter (\<lambda>(m, original). Q m original) (List.product xs ys)
     = concat (map (\<lambda>m. map (Pair m) (filter (Q m) ys)) xs)"
  by (induction xs) (simp_all add: filter_map comp_def)

lemma unique_row:
  "distinct (map hash_col ys) \<Longrightarrow> anchor \<in> set ys \<Longrightarrow>
   filter (\<lambda>r. hash_col r = hash_col anchor) ys = [anchor]"
proof (induction ys)
  case Nil
  then show ?case by simp
next
  case (Cons y ys)
  show ?case
  proof (cases "y = anchor")
    case True
    then have "hash_col anchor \<notin> hash_col ` set ys"
      using Cons.prems(1) by simp
    then have "\<forall>r \<in> set ys. hash_col r \<noteq> hash_col anchor"
      by (metis image_eqI)
    then have "filter (\<lambda>r. hash_col r = hash_col anchor) ys = []"
      by (simp add: filter_empty_conv)
    with True show ?thesis by simp
  next
    case False
    then have "anchor \<in> set ys" using Cons.prems(2) by simp
    then have "hash_col y \<noteq> hash_col anchor"
      using Cons.prems(1) by auto
    then show ?thesis
      using Cons.IH \<open>anchor \<in> set ys\<close> Cons.prems(1) by simp
  qed
qed

lemma unique_row_and:
  assumes "distinct (map hash_col ys)" "anchor \<in> set ys"
  shows "filter (\<lambda>r. R r \<and> hash_col r = hash_col anchor \<and> S r) ys
           = (if R anchor \<and> S anchor then [anchor] else [])"
proof -
  have "filter (\<lambda>r. R r \<and> hash_col r = hash_col anchor \<and> S r) ys
          = filter (\<lambda>r. R r \<and> S r) (filter (\<lambda>r. hash_col r = hash_col anchor) ys)"
    by (auto simp: filter_filter intro: filter_cong)
  then show ?thesis
    by (simp add: unique_row [OF assms])
qed

lemma concat_map_if:
  "concat (map (\<lambda>m. if C m then [g m] else []) xs) = map g (filter C xs)"
  by (induction xs) simp_all

lemma insert_by_map_pair:
  "insert_by (\<lambda>a b. le (fst a) (fst b)) (x, z) (map (\<lambda>m. (m, z)) ys)
     = map (\<lambda>m. (m, z)) (insert_by le x ys)"
  by (induction ys) simp_all

lemma order_by_map_pair:
  "order_by (\<lambda>a b. le (fst a) (fst b)) (map (\<lambda>m. (m, z)) xs)
     = map (\<lambda>m. (m, z)) (order_by le xs)"
  by (induction xs) (simp_all add: order_by_def insert_by_map_pair)

lemma sql_limit_map: "sql_limit n (map g xs) = map g (sql_limit n xs)"
  by (simp add: sql_limit_def take_map)

lemma select_rows_anchor:
  assumes "distinct (map hash_col (messages_tbl s))"
    and "anchor \<in> set (messages_tbl s)" and "channel_id anchor = c"
  shows "select_rows s c (CursorHash (hash_col anchor)) isBackward lim =
     Inr (sql_limit lim
       (order_by (if isBackward then crdt_desc else crdt_asc)
         (filter (\<lambda>m. channel_id m = c \<and>
                      (if isBackward then before_original m anchor else from_original m anchor))
            (messages_tbl s))))"
proof -
  let ?cond = "\<lambda>m original.
     if isBackward then before_original m original else from_original m original"
  let ?Q = "\<lambda>m original. channel_id m = c \<and> channel_id original = channel_id m \<and>
     hash_col original = hash_col anchor \<and> ?cond m original"
  have inner: "filter (?Q m) (messages_tbl s)
      = (if channel_id m = c \<and> ?cond m anchor then [anchor] else [])" for m
  proof (cases "channel_id m = c")
    case True
    have "filter (?Q m) (messages_tbl s)
        = filter (\<lambda>r. channel_id r = c \<and> hash_col r = hash_col anchor \<and> ?cond m r)
            (messages_tbl s)"
      using True by (intro filter_cong) simp_all
    also have "\<dots> = (if channel_id anchor = c \<and> ?cond m anchor then [anchor] else [])"
      using assms(1,2) by (rule unique_row_and)
    finally show ?thesis
      using True assms(3) by simp
  next
    case False
    then have "filter (?Q m) (messages_tbl s) = []"
      by (simp add: filter_empty_conv)
    then show ?thesis using False by simp
  qed
  have "filter (\<lambda>(m, original). ?Q m original)
          (List.product (messages_tbl s) (messages_tbl s))
      = concat (map (\<lambda>m. if channel_id m = c \<and> ?cond m anchor then [(m, anchor)] else [])
          (messages_tbl s))"
    unfolding filter_product inner
    by (intro arg_cong [where f = concat] map_cong) auto
  also have "\<dots> = map (\<lambda>m. (m, anchor))
      (filter (\<lambda>m. channel_id m = c \<and> ?cond m anchor) (messages_tbl s))"
    by (rule concat_map_if)
  finally have joined: "filter (\<lambda>(m, original). ?Q m original)
          (List.product (messages_tbl s) (messages_tbl s))
      = map (\<lambda>m. (m, anchor))
          (filter (\<lambda>m. channel_id m = c \<and> ?cond m anchor) (messages_tbl s))" .
  have cmp: "(\<lambda>a b. if isBackward then crdt_desc (fst a) (fst b) else crdt_asc (fst a) (fst b))
      = (\<lambda>a b. (if isBackward then crdt_desc else crdt_asc) (fst a) (fst b))"
    by (intro ext) simp
  show ?thesis
    unfolding select_rows_def cursor.case joined cmp order_by_map_pair sql_limit_map
    by (simp add: comp_def)
qed

lemma forward_result:
  assumes "0 \<le> lim"
  shows
   "\<lparr>abbreviatedMessages =
       (if int (length (sql_limit (lim + 1) M)) > lim
        then butlast (map abbreviate (sql_limit (lim + 1) M))
        else map abbreviate (sql_limit (lim + 1) M)),
     backwardHash =
       (if length (sql_limit (lim + 1) M) > 0
        then Some (hash_col (sql_limit (lim + 1) M ! 0)) else None),
     forwardHash =
       (if int (length (sql_limit (lim + 1) M)) > lim
        then Some (hash_col (sql_limit (lim + 1) M ! (length (sql_limit (lim + 1) M) - 1)))
        else None)\<rparr>
    = forward_page M (nat lim)"
proof -
  define n where "n = nat lim"
  define R where "R = sql_limit (lim + 1) M"
  have rows: "R = take (Suc n) M"
    using assms by (simp add: R_def sql_limit_def n_def nat_add_distrib)
  have lim: "lim = int n"
    using assms by (simp add: n_def)
  show ?thesis
  proof (cases "n < length M")
    case True
    then obtain x xs where M: "M = x # xs" by (cases M) auto
    have len: "length R = Suc n"
      using True by (simp add: rows)
    have page: "butlast (map abbreviate R) = map abbreviate (take n M)"
      using True by (simp add: rows map_butlast [symmetric] butlast_take)
    have first: "R ! 0 = x"
      by (simp add: rows M)
    have last: "R ! n = M ! n"
      by (simp add: rows)
    show ?thesis
      unfolding R_def [symmetric] forward_page_def n_def [symmetric]
      using True by (simp add: len page first last lim) (simp add: M)
  next
    case False
    then have all: "R = M" "take n M = M"
      by (simp_all add: rows)
    have len: "\<not> int (length M) > lim"
      using False by (simp add: lim)
    show ?thesis
      unfolding R_def [symmetric] forward_page_def n_def [symmetric] all
      using False len by (cases M) simp_all
  qed
qed

subsection \<open>Forward queries\<close>

lemma query_forward_rows:
  assumes "select_rows s c cur False (max 0 limit + 1) = Inr (sql_limit (max 0 limit + 1) M)"
  shows "query s c cur False limit = Inr (forward_page M (nat (max 0 limit)))"
proof -
  have "0 \<le> max 0 limit" by simp
  note fr = forward_result [OF this, of M]
  show ?thesis
    unfolding query_def Let_def assms
    by (simp only: sum.case if_False fr)
qed

lemma select_rows_height:
  "select_rows s c (CursorHeight ht) False lim =
     Inr (sql_limit lim (sort_key crdt_key
       (filter (\<lambda>m. channel_id m = c \<and> height_col m \<ge> ht) (messages_tbl s))))"
  by (simp add: select_rows_def order_by_crdt_asc)

text \<open>
  Claim C6. Over a store whose \<open>messages\<close> table has no two rows with one hash (its
  primary key), a forward query returns the page \<open>forward_page\<close> describes for the
  rows, in ascending \<open>(height, hash)\<close> order, that satisfy
  \<open>height > anchorHeight OR (height == anchorHeight AND hash >= anchorHash)\<close> for an
  anchor hash stored in the channel, and \<open>height >= anchorHeight\<close> for an anchor height:
  the first \<open>limit\<close> of them, \<open>backwardHash\<close> the hash of the first row fetched or
  \<open>null\<close>, \<open>forwardHash\<close> the hash of row \<open>limit + 1\<close> when there is one and \<open>null\<close>
  otherwise. For an anchor hash that is not stored in the channel no row satisfies the
  condition. The limit is clamped at 0.
\<close>

theorem query_forward:
  assumes "distinct (map hash_col (messages_tbl s))"
  shows
    "(\<forall>anchor \<in> set (messages_tbl s). channel_id anchor = c \<longrightarrow>
        query s c (CursorHash (hash_col anchor)) False limit =
          Inr (forward_page
            (sort_key crdt_key
              (filter (\<lambda>m. channel_id m = c \<and>
                  (height_col m > height_col anchor \<or>
                   (height_col m = height_col anchor \<and> hash_col m \<ge> hash_col anchor)))
                (messages_tbl s)))
            (nat (max 0 limit)))) \<and>
     (\<not> hasMessage s c h \<longrightarrow>
        query s c (CursorHash h) False limit = Inr (forward_page [] (nat (max 0 limit)))) \<and>
     query s c (CursorHeight ht) False limit =
       Inr (forward_page
         (sort_key crdt_key
           (filter (\<lambda>m. channel_id m = c \<and> height_col m \<ge> ht) (messages_tbl s)))
         (nat (max 0 limit)))"
proof (intro conjI ballI impI)
  assume "\<not> hasMessage s c h"
  then have "select_rows s c (CursorHash h) False (max 0 limit + 1) =
      Inr (sql_limit (max 0 limit + 1) [])"
    by (simp add: no_anchor_no_rows sql_limit_def)
  then show "query s c (CursorHash h) False limit = Inr (forward_page [] (nat (max 0 limit)))"
    by (rule query_forward_rows)
next
  fix anchor
  assume "anchor \<in> set (messages_tbl s)" and "channel_id anchor = c"
  from select_rows_anchor [OF assms this, of False]
  have "select_rows s c (CursorHash (hash_col anchor)) False (max 0 limit + 1) =
     Inr (sql_limit (max 0 limit + 1)
       (sort_key crdt_key
         (filter (\<lambda>m. channel_id m = c \<and>
             (height_col m > height_col anchor \<or>
              (height_col m = height_col anchor \<and> hash_col m \<ge> hash_col anchor)))
           (messages_tbl s))))"
    by (simp add: order_by_crdt_asc from_original_def)
  then show "query s c (CursorHash (hash_col anchor)) False limit =
          Inr (forward_page
            (sort_key crdt_key
              (filter (\<lambda>m. channel_id m = c \<and>
                  (height_col m > height_col anchor \<or>
                   (height_col m = height_col anchor \<and> hash_col m \<ge> hash_col anchor)))
                (messages_tbl s)))
            (nat (max 0 limit)))"
    by (rule query_forward_rows)
next
  show "query s c (CursorHeight ht) False limit =
       Inr (forward_page
         (sort_key crdt_key
           (filter (\<lambda>m. channel_id m = c \<and> height_col m \<ge> ht) (messages_tbl s)))
         (nat (max 0 limit)))"
    by (rule query_forward_rows) (rule select_rows_height)
qed


theorem query_forward_witness:
  "query four_messages channel_A (CursorHash [98]) False 2 =
     Inr \<lparr>abbreviatedMessages = [([98], [[97]]), ([99], [[97]])],
          backwardHash = Some [98], forwardHash = Some [100]\<rparr> \<and>
   query four_messages channel_A (CursorHeight 1) False 2 =
     Inr \<lparr>abbreviatedMessages = [([98], [[97]]), ([99], [[97]])],
          backwardHash = Some [98], forwardHash = Some [100]\<rparr>"
proof -
  let ?b = "\<lparr>channel_id = [1], hash_col = [98], parent_hashes = [1, 97], height_col = 1,
        blob = [98, 98]\<rparr> :: message_row"
  have pk: "distinct (map hash_col (messages_tbl four_messages))"
    by (simp add: four_messages_eq)
  have b: "?b \<in> set (messages_tbl four_messages)" "channel_id ?b = channel_A"
    by (simp_all add: four_messages_eq channel_A_def)
  note q = query_forward [OF pk, of channel_A 2 "[120]" 1]
  from q b have "query four_messages channel_A (CursorHash (hash_col ?b)) False 2 =
     Inr (forward_page
            (sort_key crdt_key
              (filter (\<lambda>m. channel_id m = channel_A \<and>
                  (height_col m > height_col ?b \<or>
                   (height_col m = height_col ?b \<and> hash_col m \<ge> hash_col ?b)))
                (messages_tbl four_messages)))
            (nat (max 0 2)))"
    by blast
  then have byhash: "query four_messages channel_A (CursorHash [98]) False 2 =
     Inr \<lparr>abbreviatedMessages = [([98], [[97]]), ([99], [[97]])],
          backwardHash = Some [98], forwardHash = Some [100]\<rparr>"
    by (simp add: four_messages_eq channel_A_def forward_page_def crdt_key_def abbreviate_def)
  from q have "query four_messages channel_A (CursorHeight 1) False 2 =
       Inr (forward_page
         (sort_key crdt_key
           (filter (\<lambda>m. channel_id m = channel_A \<and> height_col m \<ge> 1)
              (messages_tbl four_messages)))
         (nat (max 0 2)))"
    by blast
  then have byheight: "query four_messages channel_A (CursorHeight 1) False 2 =
     Inr \<lparr>abbreviatedMessages = [([98], [[97]]), ([99], [[97]])],
          backwardHash = Some [98], forwardHash = Some [100]\<rparr>"
    by (simp add: four_messages_eq channel_A_def forward_page_def crdt_key_def abbreviate_def)
  from byhash byheight show ?thesis by (rule conjI)
qed

subsection \<open>The CRDT order and its windows\<close>

lemma in_channel_set: "set (in_channel s c) = {r \<in> set (messages_tbl s). channel_id r = c}"
  by (auto simp: in_channel_def)

lemma in_channel_distinct:
  "distinct (map hash_col (messages_tbl s)) \<Longrightarrow> distinct (map crdt_key (in_channel s c))"
  unfolding in_channel_def by (intro distinct_hash_crdt_key distinct_map_filter)

lemma windows:
  assumes "distinct (map hash_col (messages_tbl s))" and "0 \<le> offset" and "0 \<le> limit"
  shows "getHashesAtOffset s c offset limit =
           map hash_col (take (nat limit) (drop (nat offset)
             (sort_key crdt_key (in_channel s c))))"
    and "getReverseHashesAtOffset s c offset limit =
           map hash_col (take (nat limit) (drop (nat offset)
             (rev (sort_key crdt_key (in_channel s c)))))"
  using assms
  by (simp_all add: getHashesAtOffset_def getReverseHashesAtOffset_def sql_limit_def
      sql_offset_def order_by_crdt_asc order_by_crdt_desc in_channel_distinct)

lemma distinct_map_sort_key:
  "distinct (map f xs) \<Longrightarrow> distinct (map f (sort_key f xs))"
  by (simp add: distinct_map)

lemma crdt_order_insertion_independent:
  assumes "distinct (map hash_col (messages_tbl s))"
    and "distinct (map hash_col (messages_tbl s'))"
    and "set (messages_tbl s') = set (messages_tbl s)"
  shows "sort_key crdt_key (in_channel s' c) = sort_key crdt_key (in_channel s c)"
proof (rule sorted_key_unique [where f = crdt_key])
  show "set (sort_key crdt_key (in_channel s' c)) = set (sort_key crdt_key (in_channel s c))"
    using assms(3) by (simp add: in_channel_set)
qed (simp_all add: in_channel_distinct assms distinct_map_sort_key)

text \<open>
  Claim C9. Over a store whose \<open>messages\<close> table has no two rows with one hash, and
  for a non-negative offset and limit: there is one list \<open>L\<close> of the rows of the
  channel, sorted by \<open>(height, hash)\<close> ascending with hashes compared byte-wise, such
  that \<open>getHashesAtOffset\<close> returns the hashes of the window \<open>[offset, offset + limit)\<close>
  of \<open>L\<close> and \<open>getReverseHashesAtOffset\<close> those of the same window of \<open>L\<close> reversed;
  an offset at or beyond the end gives the empty list; a store holding the same rows,
  inserted in whatever order, gives the same results; and after inserting \<open>a\<close> (height
  0), \<open>c\<close> (1), \<open>b\<close> (1), \<open>d\<close> (2) the forward window from offset 0 is \<open>a, b, c, d\<close>.
\<close>

theorem hashes_at_offset_window:
  assumes "distinct (map hash_col (messages_tbl s))" and "0 \<le> offset" and "0 \<le> limit"
  shows
    "(\<exists>L. set L = {r \<in> set (messages_tbl s). channel_id r = c} \<and>
          distinct L \<and> sorted (map crdt_key L) \<and>
          getHashesAtOffset s c offset limit =
            map hash_col (take (nat limit) (drop (nat offset) L)) \<and>
          getReverseHashesAtOffset s c offset limit =
            map hash_col (take (nat limit) (drop (nat offset) (rev L))) \<and>
          (int (length L) \<le> offset \<longrightarrow>
             getHashesAtOffset s c offset limit = [] \<and>
             getReverseHashesAtOffset s c offset limit = [])) \<and>
     (\<forall>s' :: store. distinct (map hash_col (messages_tbl s')) \<and>
           set (messages_tbl s') = set (messages_tbl s) \<longrightarrow>
           getHashesAtOffset s' c offset limit = getHashesAtOffset s c offset limit \<and>
           getReverseHashesAtOffset s' c offset limit =
             getReverseHashesAtOffset s c offset limit) \<and>
     getHashesAtOffset four_messages channel_A 0 4 = [[97], [98], [99], [100]]"
proof (intro conjI allI impI)
  let ?L = "sort_key crdt_key (in_channel s c)"
  note w = windows [OF assms, of c]
  have d: "distinct ?L"
    using in_channel_distinct [OF assms(1), of c] by (simp add: distinct_map)
  have beyond: "int (length ?L) \<le> offset \<longrightarrow>
             getHashesAtOffset s c offset limit = [] \<and>
             getReverseHashesAtOffset s c offset limit = []"
    unfolding w by auto
  show "\<exists>L. set L = {r \<in> set (messages_tbl s). channel_id r = c} \<and>
          distinct L \<and> sorted (map crdt_key L) \<and>
          getHashesAtOffset s c offset limit =
            map hash_col (take (nat limit) (drop (nat offset) L)) \<and>
          getReverseHashesAtOffset s c offset limit =
            map hash_col (take (nat limit) (drop (nat offset) (rev L))) \<and>
          (int (length L) \<le> offset \<longrightarrow>
             getHashesAtOffset s c offset limit = [] \<and>
             getReverseHashesAtOffset s c offset limit = [])"
    using d w beyond by (intro exI [of _ ?L]) (simp add: in_channel_set)
next
  fix s' :: store
  assume s': "distinct (map hash_col (messages_tbl s')) \<and>
           set (messages_tbl s') = set (messages_tbl s)"
  then have eq: "sort_key crdt_key (in_channel s' c) = sort_key crdt_key (in_channel s c)"
    using assms(1) by (intro crdt_order_insertion_independent) simp_all
  from s' have d': "distinct (map hash_col (messages_tbl s'))" by simp
  show "getHashesAtOffset s' c offset limit = getHashesAtOffset s c offset limit"
    unfolding windows(1) [OF assms, of c] windows(1) [OF d' assms(2,3), of c] eq ..
  show "getReverseHashesAtOffset s' c offset limit = getReverseHashesAtOffset s c offset limit"
    unfolding windows(2) [OF assms, of c] windows(2) [OF d' assms(2,3), of c] eq ..
next
  show "getHashesAtOffset four_messages channel_A 0 4 = [[97], [98], [99], [100]]"
    by (simp add: four_messages_eq getHashesAtOffset_def in_channel_def order_by_def
        sql_limit_def sql_offset_def crdt_asc_def channel_A_def)
qed

theorem hashes_at_offset_window_witness:
  "getHashesAtOffset four_messages channel_A 1 2 = [[98], [99]] \<and>
   getReverseHashesAtOffset four_messages channel_A 1 2 = [[99], [98]] \<and>
   getHashesAtOffset four_messages channel_A 4 2 = [] \<and>
   getHashesAtOffset
     (add_all [msg channel_A 100 2 [98, 99], msg channel_A 98 1 [97], msg channel_A 99 1 [97],
               msg channel_A 97 0 []] empty_store) channel_A 1 2
     = [[98], [99]]"
proof -
  define s' where "s' = add_all [msg channel_A 100 2 [98, 99], msg channel_A 98 1 [97],
      msg channel_A 99 1 [97], msg channel_A 97 0 []] empty_store"
  have pk: "distinct (map hash_col (messages_tbl four_messages))"
    by (simp add: four_messages_eq)
  have here: "getHashesAtOffset four_messages channel_A 1 2 = [[98], [99]]"
      "getReverseHashesAtOffset four_messages channel_A 1 2 = [[99], [98]]"
      "getHashesAtOffset four_messages channel_A 4 2 = []"
    by (simp_all add: four_messages_eq getHashesAtOffset_def getReverseHashesAtOffset_def
        in_channel_def order_by_def sql_limit_def sql_offset_def crdt_asc_def crdt_desc_def
        channel_A_def)
  have "messages_tbl s' = rev (messages_tbl four_messages)"
    by (simp add: s'_def four_messages_eq eval_defs)
  then have same: "distinct (map hash_col (messages_tbl s')) \<and>
      set (messages_tbl s') = set (messages_tbl four_messages)"
    using pk by (simp add: distinct_rev rev_map [symmetric])
  from hashes_at_offset_window [OF pk, of 1 2 channel_A]
  have "\<forall>s' :: store. distinct (map hash_col (messages_tbl s')) \<and>
           set (messages_tbl s') = set (messages_tbl four_messages) \<longrightarrow>
           getHashesAtOffset s' channel_A 1 2 = getHashesAtOffset four_messages channel_A 1 2 \<and>
           getReverseHashesAtOffset s' channel_A 1 2 =
             getReverseHashesAtOffset four_messages channel_A 1 2"
    by simp
  with same have "getHashesAtOffset s' channel_A 1 2
      = getHashesAtOffset four_messages channel_A 1 2"
    by blast
  with here show ?thesis
    unfolding s'_def by simp
qed

subsection \<open>\<open>getMessages\<close> and rows that are not there\<close>

lemma hasMessage_iff:
  "hasMessage s c h \<longleftrightarrow> (\<exists>r \<in> set (messages_tbl s). channel_id r = c \<and> hash_col r = h)"
  by (auto simp: hasMessage_def filter_empty_conv)

lemma length_insert_by: "length (insert_by le x ys) = Suc (length ys)"
  by (induction ys) simp_all

lemma length_order_by: "length (order_by le xs) = length xs"
  by (induction xs) (simp_all add: order_by_def length_insert_by)

lemma select_blobs_count:
  assumes "distinct (map hash_col (messages_tbl s))"
  shows "length (select_blobs s c hs) = card {h \<in> set hs. hasMessage s c h}"
proof -
  let ?R = "filter (\<lambda>r. channel_id r = c \<and> hash_col r \<in> set hs) (messages_tbl s)"
  have "distinct (map hash_col ?R)"
    using assms by (rule distinct_map_filter)
  then have "card (set (map hash_col ?R)) = length (map hash_col ?R)"
    by (rule distinct_card)
  then have "length ?R = card (set (map hash_col ?R))"
    by simp
  moreover have "set (map hash_col ?R) = {h \<in> set hs. hasMessage s c h}"
    by (auto simp: hasMessage_iff)
  ultimately show ?thesis
    by (simp add: select_blobs_def length_order_by)
qed

lemma select_blobs_le:
  assumes "distinct (map hash_col (messages_tbl s))"
  shows "length (select_blobs s c hs) \<le> length hs"
proof -
  have "card {h \<in> set hs. hasMessage s c h} \<le> card (set hs)"
    by (intro card_mono) auto
  also have "\<dots> \<le> length hs" by (rule card_length)
  finally show ?thesis by (simp add: select_blobs_count [OF assms])
qed

lemma select_blobs_less:
  assumes "distinct (map hash_col (messages_tbl s))"
    and "h \<in> set hs" and "\<not> hasMessage s c h"
  shows "length (select_blobs s c hs) < length hs"
proof -
  have "{h \<in> set hs. hasMessage s c h} \<subset> set hs"
    using assms(2,3) by auto
  then have "card {h \<in> set hs. hasMessage s c h} < card (set hs)"
    by (intro psubset_card_mono) auto
  also have "\<dots> \<le> length hs" by (rule card_length)
  finally show ?thesis by (simp add: select_blobs_count [OF assms(1)])
qed

lemma fetch_rows_step:
  "offset < length hashes \<Longrightarrow>
   fetch_rows s c hashes offset rows =
     fetch_rows s c hashes (offset + MAX_VARIABLE_COUNT)
       (rows @ select_blobs s c (take MAX_VARIABLE_COUNT (drop offset hashes)))"
  by (subst fetch_rows.simps) simp

lemma fetch_rows_done:
  "\<not> offset < length hashes \<Longrightarrow> fetch_rows s c hashes offset rows = rows"
  by (subst fetch_rows.simps) simp

lemma chunk_append:
  "drop offset hashes = take n (drop offset hashes) @ drop (offset + n) hashes"
proof -
  have "take n (drop offset hashes) @ drop n (drop offset hashes) = drop offset hashes"
    by (rule append_take_drop_id)
  then show ?thesis by (simp add: ac_simps)
qed

lemma chunk_split:
  "length (take n (drop offset hashes)) + (length hashes - (offset + n))
     = length hashes - offset"
  by simp

lemma fetch_rows_le:
  assumes "distinct (map hash_col (messages_tbl s))"
  shows "length (fetch_rows s c hashes offset rows) \<le> length rows + (length hashes - offset)"
  using assms
proof (induction s c hashes offset rows rule: fetch_rows.induct)
  case (1 s c hashes offset rows)
  show ?case
  proof (cases "offset < length hashes")
    case True
    define chunk where "chunk = take MAX_VARIABLE_COUNT (drop offset hashes)"
    define fetched where "fetched = select_blobs s c chunk"
    define rest where "rest = length hashes - (offset + MAX_VARIABLE_COUNT)"
    have a: "length fetched \<le> length chunk"
      unfolding fetched_def using "1.prems" by (rule select_blobs_le)
    have b: "length chunk + rest = length hashes - offset"
      unfolding chunk_def rest_def by (rule chunk_split)
    have "length (fetch_rows s c hashes (offset + MAX_VARIABLE_COUNT) (rows @ fetched))
        \<le> length (rows @ fetched) + rest"
      unfolding fetched_def chunk_def rest_def by (rule "1.IH" [OF True "1.prems"])
    then have "length (fetch_rows s c hashes (offset + MAX_VARIABLE_COUNT) (rows @ fetched))
        \<le> length rows + (length hashes - offset)"
      using a b unfolding length_append by linarith
    then show ?thesis
      unfolding fetch_rows_step [OF True] fetched_def chunk_def .
  next
    case False
    then show ?thesis by (simp add: fetch_rows_done)
  qed
qed

lemma fetch_rows_less:
  assumes "distinct (map hash_col (messages_tbl s))"
    and "h \<in> set (drop offset hashes)" and "\<not> hasMessage s c h"
  shows "length (fetch_rows s c hashes offset rows) < length rows + (length hashes - offset)"
  using assms
proof (induction s c hashes offset rows rule: fetch_rows.induct)
  case (1 s c hashes offset rows)
  define chunk where "chunk = take MAX_VARIABLE_COUNT (drop offset hashes)"
  define fetched where "fetched = select_blobs s c chunk"
  define rest where "rest = length hashes - (offset + MAX_VARIABLE_COUNT)"
  define total where
    "total = length (fetch_rows s c hashes (offset + MAX_VARIABLE_COUNT) (rows @ fetched))"
  have lt: "offset < length hashes"
    using "1.prems"(2) by (cases "offset < length hashes") auto
  have b: "length chunk + rest = length hashes - offset"
    unfolding chunk_def rest_def by (rule chunk_split)
  have le_chunk: "length fetched \<le> length chunk"
    unfolding fetched_def using "1.prems"(1) by (rule select_blobs_le)
  have le_rest: "total \<le> length rows + length fetched + rest"
    unfolding total_def rest_def
    using fetch_rows_le [OF "1.prems"(1), of c hashes "offset + MAX_VARIABLE_COUNT"
        "rows @ fetched"]
    by (simp only: length_append)
  have "set (drop offset hashes) = set chunk \<union> set (drop (offset + MAX_VARIABLE_COUNT) hashes)"
    unfolding chunk_def by (subst chunk_append [of offset hashes MAX_VARIABLE_COUNT]) simp
  then have "h \<in> set chunk \<or> h \<in> set (drop (offset + MAX_VARIABLE_COUNT) hashes)"
    using "1.prems"(2) by blast
  then have "total < length rows + (length hashes - offset)"
  proof
    assume "h \<in> set chunk"
    then have "length fetched < length chunk"
      unfolding fetched_def using "1.prems"(1,3) by (intro select_blobs_less)
    then show ?thesis
      using le_rest b by linarith
  next
    assume "h \<in> set (drop (offset + MAX_VARIABLE_COUNT) hashes)"
    then have "total < length (rows @ fetched) + rest"
      unfolding total_def fetched_def chunk_def rest_def
      by (rule "1.IH" [OF lt "1.prems"(1) _ "1.prems"(3)])
    then have "total < length rows + length fetched + rest"
      by (simp only: length_append)
    then show ?thesis
      using le_chunk b by linarith
  qed
  then show ?case
    unfolding fetch_rows_step [OF lt] total_def fetched_def chunk_def .
qed

lemma assign_results_short:
  "i \<le> length rows \<Longrightarrow> length rows < i + length order \<Longrightarrow>
   assign_results order i rows result = Inl TypeError"
  by (induction order arbitrary: i result) auto

lemma length_sorted_order: "length (sorted_order hashes) = length hashes"
  by (simp add: sorted_order_def length_order_by)

text \<open>
  Claim C10. Over a store whose \<open>messages\<close> table has no two rows with one hash:
  if the list given to \<open>getMessages\<close> contains a hash with no message stored in the
  channel, the call throws (the read of \<open>.blob\<close> of a row that is not there); it
  returns no sentinel and leaves out no entry. So the call returns only if every
  requested hash is stored in the channel.
\<close>

theorem getMessages_missing_hash_fails:
  assumes "distinct (map hash_col (messages_tbl s))"
    and "\<exists>h \<in> set hashes. \<not> hasMessage s c h"
  shows "getMessages s c hashes = Inl TypeError"
proof -
  from assms(2) obtain h where h: "h \<in> set (drop 0 hashes)" "\<not> hasMessage s c h"
    by auto
  have "length (fetch_rows s c hashes 0 []) < length ([] :: bytes list) + (length hashes - 0)"
    using assms(1) h by (rule fetch_rows_less)
  then have "length (fetch_rows s c hashes 0 []) < 0 + length (sorted_order hashes)"
    by (simp add: length_sorted_order)
  then show ?thesis
    unfolding getMessages_def by (intro assign_results_short) simp_all
qed

theorem getMessages_missing_hash_witness:
  "hasMessage two_channels channel_A [97] \<and> hasMessage two_channels channel_B [99] \<and>
   getMessages two_channels channel_A [[97], [99]] = Inl TypeError"
proof -
  have pk: "distinct (map hash_col (messages_tbl two_channels))"
    by (simp add: two_channels_eq)
  have missing: "\<exists>h \<in> set [[97], [99]]. \<not> hasMessage two_channels channel_A h"
    by (simp add: two_channels_eq hasMessage_def channel_A_def)
  have "hasMessage two_channels channel_A [97]" "hasMessage two_channels channel_B [99]"
    by (simp_all add: two_channels_eq hasMessage_def channel_A_def channel_B_def)
  then show ?thesis
    using getMessages_missing_hash_fails [OF pk missing] by simp
qed

subsection \<open>What \<open>getMessages\<close> returns\<close>

lemma getMessage_row:
  assumes "distinct (map hash_col (messages_tbl s))" and "r \<in> set (messages_tbl s)"
  shows "getMessage s (channel_id r) (hash_col r) = Some (blob r)"
proof -
  have "filter (\<lambda>x. channel_id x = channel_id r \<and> hash_col x = hash_col r \<and> True)
      (messages_tbl s) = (if channel_id r = channel_id r \<and> True then [r] else [])"
    using assms by (rule unique_row_and)
  then show ?thesis by (simp add: getMessage_def)
qed

lemma select_blobs_sorted:
  assumes pk: "distinct (map hash_col (messages_tbl s))"
    and d: "distinct hs" and stored: "\<forall>h \<in> set hs. hasMessage s c h"
  shows "map Some (select_blobs s c hs) = map (getMessage s c) (sort hs)"
proof -
  define R where
    "R = filter (\<lambda>r. channel_id r = c \<and> hash_col r \<in> set hs) (messages_tbl s)"
  define L where "L = sort_key hash_col R"
  have dR: "distinct (map hash_col R)"
    unfolding R_def using pk by (rule distinct_map_filter)
  have setR: "hash_col ` set R = set hs"
  proof
    show "hash_col ` set R \<subseteq> set hs" by (auto simp: R_def)
    show "set hs \<subseteq> hash_col ` set R"
    proof
      fix h assume h: "h \<in> set hs"
      with stored obtain r where "r \<in> set (messages_tbl s)" "channel_id r = c" "hash_col r = h"
        by (auto simp: hasMessage_iff)
      with h have "r \<in> set R" by (simp add: R_def)
      with \<open>hash_col r = h\<close> show "h \<in> hash_col ` set R" by blast
    qed
  qed
  have keys: "map hash_col L = sort hs"
  proof (rule sorted_distinct_set_unique)
    show "sorted (map hash_col L)" by (simp add: L_def)
    show "distinct (map hash_col L)" unfolding L_def using dR by (rule distinct_map_sort_key)
    show "sorted (sort hs)" by simp
    show "distinct (sort hs)" using d by simp
    show "set (map hash_col L) = set (sort hs)" using setR by (simp add: L_def)
  qed
  have blobs: "map (\<lambda>r. Some (blob r)) L = map (\<lambda>r. getMessage s c (hash_col r)) L"
  proof (rule map_cong [OF refl])
    fix r assume "r \<in> set L"
    then have "r \<in> set (messages_tbl s)" "channel_id r = c"
      by (simp_all add: L_def R_def)
    then show "Some (blob r) = getMessage s c (hash_col r)"
      using getMessage_row [OF pk, of r] by simp
  qed
  have "map Some (map blob L) = map (\<lambda>r. Some (blob r)) L"
    by simp
  also have "\<dots> = map (\<lambda>r. getMessage s c (hash_col r)) L"
    by (rule blobs)
  also have "\<dots> = map (getMessage s c) (map hash_col L)"
    by simp
  also have "\<dots> = map (getMessage s c) (sort hs)"
    by (simp only: keys)
  finally have "map Some (map blob L) = map (getMessage s c) (sort hs)" .
  then show ?thesis
    by (simp add: select_blobs_def order_by_hash_asc L_def R_def)
qed

lemma sorted_order_props:
  shows "distinct (sorted_order hs)"
    and "set (sorted_order hs) = {0..<length hs}"
    and "sorted (map (\<lambda>i. hs ! i) (sorted_order hs))"
proof -
  define L where "L = sort_key snd (enumerate 0 hs)"
  have order: "sorted_order hs = map fst L"
    by (simp add: sorted_order_def L_def order_by_sort_key)
  have setL: "set L = set (enumerate 0 hs)" by (simp add: L_def)
  have "distinct (map fst (enumerate 0 hs))" by simp
  from this [unfolded distinct_map] have inj: "inj_on fst (set (enumerate 0 hs))"
    by (rule conjunct2)
  have "distinct L" by (simp add: L_def)
  with inj show "distinct (sorted_order hs)"
    unfolding order by (simp add: distinct_map setL)
  have "set (map fst L) = fst ` set (enumerate 0 hs)"
    by (simp add: setL)
  also have "\<dots> = set (map fst (enumerate 0 hs))"
    by (simp only: set_map)
  also have "\<dots> = {0..<length hs}"
    by simp
  finally show "set (sorted_order hs) = {0..<length hs}"
    unfolding order .
  have nths: "map (\<lambda>i. hs ! i) (map fst L) = map snd L"
    unfolding map_map
  proof (rule map_cong [OF refl])
    fix p assume "p \<in> set L"
    then have "p \<in> set (enumerate 0 hs)" by (simp add: setL)
    then show "((\<lambda>i. hs ! i) \<circ> fst) p = snd p"
      by (simp add: in_set_enumerate_eq)
  qed
  have "sorted (map snd L)" by (simp add: L_def)
  then show "sorted (map (\<lambda>i. hs ! i) (sorted_order hs))"
    unfolding order nths .
qed

lemma sorted_order_sort:
  assumes "distinct hs"
  shows "map (\<lambda>i. hs ! i) (sorted_order hs) = sort hs"
proof (rule sorted_distinct_set_unique)
  note p = sorted_order_props [of hs]
  show "sorted (map (\<lambda>i. hs ! i) (sorted_order hs))" by (rule p(3))
  have "inj_on (\<lambda>i. hs ! i) {0..<length hs}"
    using assms by (auto simp: inj_on_def nth_eq_iff_index_eq)
  then show "distinct (map (\<lambda>i. hs ! i) (sorted_order hs))"
    using p(1,2) by (simp add: distinct_map)
  show "sorted (sort hs)" by simp
  show "distinct (sort hs)" using assms by simp
  have "(\<lambda>i. hs ! i) ` {0..<length hs} = set hs"
    by (auto simp: set_conv_nth)
  then show "set (map (\<lambda>i. hs ! i) (sorted_order hs)) = set (sort hs)"
    using p(2) by simp
qed

lemma assign_results_ok:
  assumes "i + length order \<le> length rows" and "distinct order"
    and "\<forall>t \<in> set order. t < length result"
  shows "\<exists>res. assign_results order i rows result = Inr res \<and>
           length res = length result \<and>
           (\<forall>k < length order. res ! (order ! k) = Some (rows ! (i + k))) \<and>
           (\<forall>j. j \<notin> set order \<longrightarrow> res ! j = result ! j)"
  using assms
proof (induction order arbitrary: i result)
  case Nil
  then show ?case by simp
next
  case (Cons t rest)
  define result1 where "result1 = result[t := Some (rows ! i)]"
  have step: "assign_results (t # rest) i rows result = assign_results rest (Suc i) rows result1"
    using Cons.prems(1) by (simp add: result1_def)
  have t: "t \<notin> set rest" "t < length result"
    using Cons.prems(2,3) by simp_all
  have "\<exists>res. assign_results rest (Suc i) rows result1 = Inr res \<and>
           length res = length result1 \<and>
           (\<forall>k < length rest. res ! (rest ! k) = Some (rows ! (Suc i + k))) \<and>
           (\<forall>j. j \<notin> set rest \<longrightarrow> res ! j = result1 ! j)"
    using Cons.prems by (intro Cons.IH) (simp_all add: result1_def)
  then obtain res where res: "assign_results rest (Suc i) rows result1 = Inr res"
      "length res = length result1"
      "\<forall>k < length rest. res ! (rest ! k) = Some (rows ! (Suc i + k))"
      "\<forall>j. j \<notin> set rest \<longrightarrow> res ! j = result1 ! j"
    by blast
  have first: "res ! t = Some (rows ! i)"
    using res(4) t by (simp add: result1_def)
  have nth: "res ! ((t # rest) ! k) = Some (rows ! (i + k))" if "k < length (t # rest)" for k
  proof (cases k)
    case 0
    then show ?thesis using first by simp
  next
    case (Suc k')
    then show ?thesis using res(3) that by simp
  qed
  have other: "res ! j = result ! j" if "j \<notin> set (t # rest)" for j
    using res(4) that by (simp add: result1_def)
  show ?case
    unfolding step using res(1,2) nth other by (simp add: result1_def)
qed

lemma select_blobs_Nil: "select_blobs s c [] = []"
  by (simp add: select_blobs_def order_by_def)

lemma fetch_rows_one_slice:
  assumes "length hs \<le> MAX_VARIABLE_COUNT"
  shows "fetch_rows s c hs 0 [] = select_blobs s c hs"
proof (cases "hs = []")
  case True
  then show ?thesis by (simp add: fetch_rows_done select_blobs_Nil)
next
  case False
  then have "0 < length hs" by simp
  then have "fetch_rows s c hs 0 [] =
      fetch_rows s c hs (0 + MAX_VARIABLE_COUNT)
        ([] @ select_blobs s c (take MAX_VARIABLE_COUNT (drop 0 hs)))"
    by (rule fetch_rows_step)
  also have "\<dots> = [] @ select_blobs s c (take MAX_VARIABLE_COUNT (drop 0 hs))"
    using assms by (intro fetch_rows_done) simp
  finally show ?thesis using assms by simp
qed

lemma assigned_in_input_order:
  assumes d: "distinct hs"
    and rows: "map Some rows = map lookup (sort hs)"
  shows "assign_results (sorted_order hs) 0 rows (replicate (length hs) None)
           = Inr (map lookup hs)"
proof -
  note p = sorted_order_props [of hs]
  have len_rows: "length rows = length hs"
    using arg_cong [OF rows, of length] by simp
  have len_order: "length (sorted_order hs) = length hs"
    by (rule length_sorted_order)
  have "\<exists>res. assign_results (sorted_order hs) 0 rows (replicate (length hs) None) = Inr res \<and>
           length res = length (replicate (length hs) (None :: bytes option)) \<and>
           (\<forall>k < length (sorted_order hs). res ! (sorted_order hs ! k) = Some (rows ! (0 + k))) \<and>
           (\<forall>j. j \<notin> set (sorted_order hs) \<longrightarrow>
               res ! j = replicate (length hs) None ! j)"
    using p(1,2) by (intro assign_results_ok) (simp_all add: len_rows len_order)
  then obtain res where res:
      "assign_results (sorted_order hs) 0 rows (replicate (length hs) None) = Inr res"
      "length res = length hs"
      "\<forall>k < length hs. res ! (sorted_order hs ! k) = Some (rows ! k)"
    by (auto simp: len_order)
  have "res = map lookup hs"
  proof (rule nth_equalityI)
    show "length res = length (map lookup hs)" by (simp add: res(2))
  next
    fix j assume "j < length res"
    then have j: "j < length hs" by (simp add: res(2))
    then have "j \<in> set (sorted_order hs)" by (simp add: p(2))
    then obtain k where k: "k < length hs" "sorted_order hs ! k = j"
      by (auto simp: in_set_conv_nth len_order)
    have "Some (rows ! k) = map Some rows ! k"
      using k(1) by (simp add: len_rows)
    also have "\<dots> = lookup (sort hs ! k)"
      unfolding rows using k(1) by simp
    also have "sort hs ! k = map (\<lambda>i. hs ! i) (sorted_order hs) ! k"
      by (simp only: sorted_order_sort [OF d])
    also have "\<dots> = hs ! j"
      using k by (simp add: len_order)
    finally have "Some (rows ! k) = lookup (hs ! j)" .
    then show "res ! j = map lookup hs ! j"
      using res(3) k j by auto
  qed
  with res(1) show ?thesis by simp
qed

text \<open>
  For distinct hashes, all stored in the channel and few enough for one statement,
  \<open>getMessages\<close> returns the payloads in input order.
\<close>

lemma getMessages_one_slice:
  assumes "distinct (map hash_col (messages_tbl s))"
    and "distinct hashes" and "length hashes \<le> MAX_VARIABLE_COUNT"
    and "\<forall>h \<in> set hashes. hasMessage s c h"
  shows "getMessages s c hashes = Inr (map (getMessage s c) hashes)"
  unfolding getMessages_def fetch_rows_one_slice [OF assms(3)]
  using assms(2) select_blobs_sorted [OF assms(1,2,4)]
  by (rule assigned_in_input_order)

lemma fetch_rows_two_slices:
  assumes "length xs = MAX_VARIABLE_COUNT"
  shows "fetch_rows s c (xs @ [h]) 0 [] = select_blobs s c xs @ select_blobs s c [h]"
proof -
  have pos: "0 < MAX_VARIABLE_COUNT" by (simp add: MAX_VARIABLE_COUNT_def)
  have "fetch_rows s c (xs @ [h]) 0 [] =
      fetch_rows s c (xs @ [h]) (0 + MAX_VARIABLE_COUNT)
        ([] @ select_blobs s c (take MAX_VARIABLE_COUNT (drop 0 (xs @ [h]))))"
    by (rule fetch_rows_step) simp
  also have "\<dots> = fetch_rows s c (xs @ [h]) MAX_VARIABLE_COUNT (select_blobs s c xs)"
    using assms by simp
  also have "\<dots> = fetch_rows s c (xs @ [h]) (MAX_VARIABLE_COUNT + MAX_VARIABLE_COUNT)
        (select_blobs s c xs @
         select_blobs s c (take MAX_VARIABLE_COUNT (drop MAX_VARIABLE_COUNT (xs @ [h]))))"
    using assms by (intro fetch_rows_step) simp
  also have "\<dots> = select_blobs s c xs @
         select_blobs s c (take MAX_VARIABLE_COUNT (drop MAX_VARIABLE_COUNT (xs @ [h])))"
    using assms pos by (intro fetch_rows_done) simp
  also have "take MAX_VARIABLE_COUNT (drop MAX_VARIABLE_COUNT (xs @ [h])) = [h]"
    using assms pos by simp
  finally show ?thesis .
qed

lemma least_first:
  assumes "\<forall>x \<in> set xs. h < x"
  shows "sort (xs @ [h]) ! 0 = (h :: bytes)"
proof -
  define ys where "ys = sort (xs @ [h])"
  have set: "set ys = insert h (set xs)" and sorted: "sorted ys"
    by (simp_all add: ys_def)
  then have "ys \<noteq> []" by auto
  then obtain y rest where ys: "ys = y # rest" by (cases ys) auto
  have "y \<le> h" using sorted set ys by auto
  moreover have "y = h \<or> y \<in> set xs" using set ys by auto
  ultimately have "y = h" using assms by auto
  then show ?thesis by (simp add: ys ys_def [symmetric])
qed

text \<open>
  With one hash more than a statement takes, rows are fetched in two slices, each
  sorted on its own, and matched against the order of the whole input: when the last
  hash is the least, its slot receives the payload of the least hash of the first slice.
\<close>

lemma getMessages_second_slice:
  assumes pk: "distinct (map hash_col (messages_tbl s))"
    and d: "distinct (xs @ [h])" and len: "length xs = MAX_VARIABLE_COUNT"
    and stored: "\<forall>x \<in> set (xs @ [h]). hasMessage s c x"
    and least: "\<forall>x \<in> set xs. h < x"
  shows "\<exists>res. getMessages s c (xs @ [h]) = Inr res \<and>
           res ! length xs = getMessage s c (sort xs ! 0)"
proof -
  let ?hs = "xs @ [h]"
  have pos: "0 < length xs" using len by (simp add: MAX_VARIABLE_COUNT_def)
  have first: "map Some (select_blobs s c xs) = map (getMessage s c) (sort xs)"
    using pk d stored by (intro select_blobs_sorted) simp_all
  have second: "map Some (select_blobs s c [h]) = map (getMessage s c) (sort [h])"
    using pk stored by (intro select_blobs_sorted) simp_all
  have len1: "length (select_blobs s c xs) = length xs"
    using arg_cong [OF first, of length] by simp
  have len2: "length (select_blobs s c [h]) = 1"
    using arg_cong [OF second, of length] by simp
  define rows where "rows = select_blobs s c xs @ select_blobs s c [h]"
  have fetched: "fetch_rows s c ?hs 0 [] = rows"
    unfolding rows_def using len by (rule fetch_rows_two_slices)
  have len_rows: "length rows = length ?hs"
    by (simp add: rows_def len1 len2)
  have row0: "Some (rows ! 0) = getMessage s c (sort xs ! 0)"
  proof -
    have "rows ! 0 = select_blobs s c xs ! 0"
      using pos by (simp add: rows_def nth_append len1)
    then have "Some (rows ! 0) = map Some (select_blobs s c xs) ! 0"
      using pos by (simp add: len1)
    also have "\<dots> = getMessage s c (sort xs ! 0)"
      unfolding first using pos by simp
    finally show ?thesis .
  qed
  note p = sorted_order_props [of ?hs]
  have len_order: "length (sorted_order ?hs) = length ?hs"
    by (rule length_sorted_order)
  have "\<exists>res. assign_results (sorted_order ?hs) 0 rows (replicate (length ?hs) None) = Inr res \<and>
           length res = length (replicate (length ?hs) (None :: bytes option)) \<and>
           (\<forall>k < length (sorted_order ?hs).
               res ! (sorted_order ?hs ! k) = Some (rows ! (0 + k))) \<and>
           (\<forall>j. j \<notin> set (sorted_order ?hs) \<longrightarrow>
               res ! j = replicate (length ?hs) None ! j)"
    using p(1,2) by (intro assign_results_ok) (simp_all add: len_rows len_order)
  then obtain res where res:
      "assign_results (sorted_order ?hs) 0 rows (replicate (length ?hs) None) = Inr res"
      "\<forall>k < length (sorted_order ?hs). res ! (sorted_order ?hs ! k) = Some (rows ! (0 + k))"
    by blast
  have in_range: "sorted_order ?hs ! 0 < length ?hs"
  proof -
    have "sorted_order ?hs ! 0 \<in> set (sorted_order ?hs)"
      by (simp add: len_order)
    then show ?thesis unfolding p(2) by simp
  qed
  have "?hs ! (sorted_order ?hs ! 0) = map (\<lambda>i. ?hs ! i) (sorted_order ?hs) ! 0"
    by (simp add: len_order)
  also have "\<dots> = sort ?hs ! 0"
    by (simp only: sorted_order_sort [OF d])
  also have "\<dots> = h"
    using least by (rule least_first)
  also have "h = ?hs ! length xs"
    by simp
  finally have "sorted_order ?hs ! 0 = length xs"
    using d in_range by (simp add: nth_eq_iff_index_eq del: nth_append_length)
  moreover have "res ! (sorted_order ?hs ! 0) = Some (rows ! 0)"
    using res(2) by (simp add: len_order)
  ultimately have "res ! length xs = getMessage s c (sort xs ! 0)"
    using row0 by simp
  with res(1) show ?thesis
    unfolding getMessages_def fetched by blast
qed

text \<open>
  Claim C1, at a failing input. The claim: for hashes all stored in the channel,
  duplicates included, \<open>getMessages\<close> returns one payload per input hash, in input
  order. The message \<open>b\<close> is stored in \<open>four_messages\<close> and is returned when asked
  for once; asked for twice, \<open>hash IN (b, b)\<close> selects one row, \<open>rows[1]\<close> is
  \<open>undefined\<close> and the call throws.
\<close>

theorem getMessages_duplicate_hash_fails:
  "hasMessage four_messages channel_A [98] \<and>
   getMessage four_messages channel_A [98] = Some [98, 98] \<and>
   getMessages four_messages channel_A [[98]] = Inr [Some [98, 98]] \<and>
   getMessages four_messages channel_A [[98], [98]] = Inl TypeError"
  by (simp add: four_messages_eq hasMessage_def getMessage_def getMessages_def
      sorted_order_def order_by_def select_blobs_def hash_asc_def channel_A_def
      MAX_VARIABLE_COUNT_def fetch_rows.simps)

subsection \<open>Backward queries\<close>

lemma backward_result:
  assumes "0 \<le> lim"
  shows
   "\<lparr>abbreviatedMessages =
       (if int (length (rev (sql_limit (lim + 1) (rev P)))) > lim
        then drop 1 (map abbreviate (rev (sql_limit (lim + 1) (rev P))))
        else map abbreviate (rev (sql_limit (lim + 1) (rev P)))),
     backwardHash =
       (if int (length (rev (sql_limit (lim + 1) (rev P)))) > lim
        then Some (hash_col (rev (sql_limit (lim + 1) (rev P)) ! 0)) else None),
     forwardHash = Some h\<rparr>
    = backward_page P h (nat lim)"
proof -
  define n where "n = nat lim"
  define R where "R = rev (sql_limit (lim + 1) (rev P))"
  have rows: "R = drop (length P - Suc n) P"
    using assms by (simp add: R_def sql_limit_def n_def nat_add_distrib rev_take)
  have lim: "lim = int n"
    using assms by (simp add: n_def)
  show ?thesis
  proof (cases "n < length P")
    case True
    have len: "length R = Suc n"
      using True by (simp add: rows)
    have page: "drop (Suc 0) (map abbreviate R) = map abbreviate (drop (length P - n) P)"
      using True by (simp add: rows drop_map Suc_diff_Suc)
    have first: "R ! 0 = P ! (length P - n - 1)"
      using True by (simp add: rows)
    show ?thesis
      unfolding R_def [symmetric] backward_page_def n_def [symmetric]
      using True by (simp add: len page first lim)
  next
    case False
    then have all: "R = P" "drop (length P - n) P = P"
      by (simp_all add: rows)
    have len: "\<not> int (length P) > lim"
      using False by (simp add: lim)
    show ?thesis
      unfolding R_def [symmetric] backward_page_def n_def [symmetric] all
      using False len by simp
  qed
qed

lemma query_backward_page:
  assumes "distinct (map hash_col (messages_tbl s))"
    and "anchor \<in> set (messages_tbl s)" and "channel_id anchor = c"
  shows "query s c (CursorHash (hash_col anchor)) True limit =
     Inr (backward_page
       (sort_key crdt_key
         (filter (\<lambda>m. channel_id m = c \<and>
             (height_col m < height_col anchor \<or>
              (height_col m = height_col anchor \<and> hash_col m < hash_col anchor)))
           (messages_tbl s)))
       (hash_col anchor) (nat (max 0 limit)))"
proof -
  let ?P = "sort_key crdt_key
         (filter (\<lambda>m. channel_id m = c \<and>
             (height_col m < height_col anchor \<or>
              (height_col m = height_col anchor \<and> hash_col m < hash_col anchor)))
           (messages_tbl s))"
  have d: "distinct (map crdt_key
      (filter (\<lambda>m. channel_id m = c \<and>
             (height_col m < height_col anchor \<or>
              (height_col m = height_col anchor \<and> hash_col m < hash_col anchor)))
           (messages_tbl s)))"
    using assms(1) by (intro distinct_hash_crdt_key distinct_map_filter)
  have rows: "select_rows s c (CursorHash (hash_col anchor)) True (max 0 limit + 1) =
      Inr (sql_limit (max 0 limit + 1) (rev ?P))"
    using select_rows_anchor [OF assms, of True "max 0 limit + 1"]
    by (simp add: before_original_def order_by_crdt_desc [OF d])
  have "0 \<le> max 0 limit" by simp
  note br = backward_result [OF this, of ?P "hash_col anchor"]
  show ?thesis
    unfolding query_def Let_def rows
    by (simp only: sum.case if_True cursor_hash_def cursor.case br)
qed

text \<open>
  Claim C2, at a failing input. The claim: when more than \<open>limit\<close> rows precede the
  anchor, \<open>backwardHash\<close> is the hash of the earliest row kept in the page. Backward
  from \<open>d\<close> with limit 2 the rows \<open>a, b, c\<close> are fetched and the page is \<open>b, c\<close>;
  \<open>backwardHash\<close> is \<open>rows[0].hash\<close>, the hash of the dropped row \<open>a\<close>, not of \<open>b\<close>.
  A backward query takes the rows strictly before its anchor: continued from \<open>a\<close> it
  returns nothing, so \<open>a\<close> is never delivered; continued from \<open>b\<close> it returns \<open>a\<close>.
\<close>

theorem query_backward_returns_dropped_row:
  "query four_messages channel_A (CursorHash [100]) True 2 =
     Inr \<lparr>abbreviatedMessages = [([98], [[97]]), ([99], [[97]])],
          backwardHash = Some [97], forwardHash = Some [100]\<rparr> \<and>
   query four_messages channel_A (CursorHash [97]) True 2 =
     Inr \<lparr>abbreviatedMessages = [], backwardHash = None, forwardHash = Some [97]\<rparr> \<and>
   query four_messages channel_A (CursorHash [98]) True 2 =
     Inr \<lparr>abbreviatedMessages = [([97], [])], backwardHash = None, forwardHash = Some [98]\<rparr>"
  by (simp add: four_messages_eq channel_A_def query_defs)

subsection \<open>Leaves\<close>

lemma encodeHashList_Inr:
  assumes "encodeHashList list = Inr buf"
  shows "(\<forall>elem \<in> set list. length elem \<le> 255) \<and> buf = writeHashes list"
proof (cases "\<exists>elem \<in> set list. length elem > 255")
  case True
  then have "encodeHashList list = Inl InvalidHash" by (rule encodeHashList_fails)
  with assms show ?thesis by simp
next
  case False
  then have ok: "\<forall>elem \<in> set list. length elem \<le> 255" by (simp add: not_less)
  then have "encodeHashList list = Inr (writeHashes list)" by (rule encodeHashList_ok)
  with assms ok show ?thesis by simp
qed

lemma addMessage_ok:
  assumes "fst (addMessage s m) = Inr ()"
  shows "(\<forall>p \<in> set (parents m). length p \<le> 255) \<and>
     snd (addMessage s m) =
       \<lparr>messages_tbl =
          replace_into_messages
            \<lparr>channel_id = channelId m, hash_col = hash m,
             parent_hashes = writeHashes (parents m),
             height_col = height m, blob = data m\<rparr>
            (messages_tbl s),
        parents_tbl =
          fold (\<lambda>parentHash. replace_into_parents (channelId m, parentHash))
            (parents m) (parents_tbl s)\<rparr>"
proof (cases "encodeHashList (parents m)")
  case (Inl e)
  then have "fst (addMessage s m) = Inl e" by (simp add: addMessage_def)
  with assms show ?thesis by simp
next
  case (Inr buf)
  from encodeHashList_Inr [OF Inr] Inr show ?thesis
    by (simp add: addMessage_def)
qed

lemma set_fold_replace:
  "set (fold (\<lambda>p. replace_into_parents (c, p)) ps tbl)
     = {e \<in> set tbl. snd e \<notin> set ps} \<union> Pair c ` set ps"
proof (induction ps arbitrary: tbl)
  case Nil
  then show ?case by simp
next
  case (Cons p ps)
  have "set (replace_into_parents (c, p) tbl) = {e \<in> set tbl. snd e \<noteq> p} \<union> {(c, p)}"
    by (auto simp: replace_into_parents_def)
  then show ?case
    unfolding fold_Cons comp_def Cons.IH by auto
qed

lemma edges_exact_empty: "edges_exact empty_store"
  by (simp add: edges_exact_def referenced_def empty_store_def)

lemma edges_exact_remove:
  assumes "edges_exact s"
  shows "edges_exact (removeChannelMessages s a)"
  unfolding edges_exact_def
proof (intro allI)
  fix c h
  have "referenced (removeChannelMessages s a) c h \<longleftrightarrow> c \<noteq> a \<and> referenced s c h"
    by (auto simp: referenced_def removeChannelMessages_def)
  moreover have "(c, h) \<in> set (parents_tbl (removeChannelMessages s a))
      \<longleftrightarrow> c \<noteq> a \<and> (c, h) \<in> set (parents_tbl s)"
    by (auto simp: removeChannelMessages_def)
  ultimately show "(c, h) \<in> set (parents_tbl (removeChannelMessages s a))
      \<longleftrightarrow> referenced (removeChannelMessages s a) c h"
    using assms by (simp add: edges_exact_def)
qed

lemma referenced_add:
  assumes "fst (addMessage s m) = Inr ()"
    and "\<forall>r \<in> set (messages_tbl s). hash_col r = hash m \<longrightarrow>
           channel_id r = channelId m \<and> decodeHashList (parent_hashes r) = parents m"
  shows "referenced (snd (addMessage s m)) c h \<longleftrightarrow>
     referenced s c h \<or> (c = channelId m \<and> h \<in> set (parents m))"
proof -
  note ok = addMessage_ok [OF assms(1)]
  have dec: "decodeHashList (writeHashes (parents m)) = parents m"
    using ok by (intro decode_writeHashes) simp
  have tbl: "set (messages_tbl (snd (addMessage s m))) =
      {r \<in> set (messages_tbl s). hash_col r \<noteq> hash m} \<union>
      {\<lparr>channel_id = channelId m, hash_col = hash m,
        parent_hashes = writeHashes (parents m),
        height_col = height m, blob = data m\<rparr>}"
    using ok by (auto simp: replace_into_messages_def)
  have kept: "referenced s c h \<longleftrightarrow>
      (\<exists>r \<in> set (messages_tbl s). hash_col r \<noteq> hash m \<and> channel_id r = c \<and>
          h \<in> set (decodeHashList (parent_hashes r))) \<or>
      (\<exists>r \<in> set (messages_tbl s). hash_col r = hash m \<and> channel_id r = c \<and>
          h \<in> set (decodeHashList (parent_hashes r)))"
    unfolding referenced_def by blast
  have same: "(\<exists>r \<in> set (messages_tbl s). hash_col r = hash m \<and> channel_id r = c \<and>
          h \<in> set (decodeHashList (parent_hashes r)))
      \<Longrightarrow> c = channelId m \<and> h \<in> set (parents m)"
    using assms(2) by auto
  have new: "referenced (snd (addMessage s m)) c h \<longleftrightarrow>
      (\<exists>r \<in> set (messages_tbl s). hash_col r \<noteq> hash m \<and> channel_id r = c \<and>
          h \<in> set (decodeHashList (parent_hashes r))) \<or>
      (c = channelId m \<and> h \<in> set (parents m))"
    unfolding referenced_def tbl by (auto simp: dec)
  show ?thesis
    unfolding new kept using same by blast
qed

lemma edges_add:
  assumes "fst (addMessage s m) = Inr ()"
    and "\<forall>e \<in> set (parents_tbl s). snd e \<in> set (parents m) \<longrightarrow> fst e = channelId m"
  shows "(c, h) \<in> set (parents_tbl (snd (addMessage s m))) \<longleftrightarrow>
     (c, h) \<in> set (parents_tbl s) \<or> (c = channelId m \<and> h \<in> set (parents m))"
proof -
  note ok = addMessage_ok [OF assms(1)]
  have "set (parents_tbl (snd (addMessage s m)))
      = {e \<in> set (parents_tbl s). snd e \<notin> set (parents m)} \<union> Pair (channelId m) ` set (parents m)"
    using ok by (simp add: set_fold_replace)
  then show ?thesis
    using assms(2) by auto
qed

lemma referenced_after_add:
  assumes "fst (addMessage s m) = Inr ()"
  shows "referenced (snd (addMessage s m)) c h \<longleftrightarrow>
      (\<exists>r \<in> set (messages_tbl s). hash_col r \<noteq> hash m \<and> channel_id r = c \<and>
          h \<in> set (decodeHashList (parent_hashes r))) \<or>
      (c = channelId m \<and> h \<in> set (parents m))"
proof -
  note ok = addMessage_ok [OF assms]
  have dec: "decodeHashList (writeHashes (parents m)) = parents m"
    using ok by (intro decode_writeHashes) simp
  have tbl: "set (messages_tbl (snd (addMessage s m))) =
      {r \<in> set (messages_tbl s). hash_col r \<noteq> hash m} \<union>
      {\<lparr>channel_id = channelId m, hash_col = hash m,
        parent_hashes = writeHashes (parents m),
        height_col = height m, blob = data m\<rparr>}"
    using ok by (auto simp: replace_into_messages_def)
  show ?thesis
    unfolding referenced_def tbl by (auto simp: dec)
qed

lemma edges_after_add:
  assumes "fst (addMessage s m) = Inr ()"
  shows "(c, h) \<in> set (parents_tbl (snd (addMessage s m))) \<longleftrightarrow>
     ((c, h) \<in> set (parents_tbl s) \<and> h \<notin> set (parents m)) \<or>
     (c = channelId m \<and> h \<in> set (parents m))"
proof -
  note ok = addMessage_ok [OF assms]
  have "set (parents_tbl (snd (addMessage s m)))
      = {e \<in> set (parents_tbl s). snd e \<notin> set (parents m)} \<union> Pair (channelId m) ` set (parents m)"
    using ok by (simp add: set_fold_replace)
  then show ?thesis by auto
qed

lemma leaf_iff:
  "h \<in> set (getLeafHashes s c) \<longleftrightarrow>
     (\<exists>r \<in> set (messages_tbl s). channel_id r = c \<and> hash_col r = h) \<and>
     (c, h) \<notin> set (parents_tbl s)"
proof -
  have eq: "x \<in> set (map snd (filter (\<lambda>e. fst e = c) (parents_tbl s)))
      \<longleftrightarrow> (c, x) \<in> set (parents_tbl s)" for x
    by force
  show ?thesis
    unfolding getLeafHashes_def eq by auto
qed

lemma new_row_stored:
  assumes "fst (addMessage s m) = Inr ()"
  shows "\<exists>r \<in> set (messages_tbl (snd (addMessage s m))).
           channel_id r = channelId m \<and> hash_col r = hash m"
proof -
  have "\<lparr>channel_id = channelId m, hash_col = hash m,
         parent_hashes = writeHashes (parents m),
         height_col = height m, blob = data m\<rparr> \<in> set (messages_tbl (snd (addMessage s m)))"
    using addMessage_ok [OF assms] by (simp add: replace_into_messages_def)
  then show ?thesis
    by (intro bexI [where x = "\<lparr>channel_id = channelId m, hash_col = hash m,
         parent_hashes = writeHashes (parents m),
         height_col = height m, blob = data m\<rparr>"]) simp_all
qed

text \<open>After a successful \<open>addMessage\<close>, in whatever store, no parent of the message is
  a leaf of its channel.\<close>

lemma parents_leave_leaf_set:
  assumes "fst (addMessage s m) = Inr ()" and "p \<in> set (parents m)"
  shows "p \<notin> set (getLeafHashes (snd (addMessage s m)) (channelId m))"
  using assms(2) by (simp add: leaf_iff edges_after_add [OF assms(1)])

text \<open>
  After a successful \<open>addMessage\<close>, in whatever store, the new message is a leaf of its
  channel exactly when no row of \<open>parents\<close> names it there; "a leaf if nothing
  references it" therefore holds exactly when no stale row names its hash.
\<close>

lemma new_leaf_iff_no_stale_row:
  assumes "fst (addMessage s m) = Inr ()"
  shows "(\<not> referenced (snd (addMessage s m)) (channelId m) (hash m) \<longrightarrow>
            hash m \<in> set (getLeafHashes (snd (addMessage s m)) (channelId m)))
         \<longleftrightarrow> no_stale_row s m"
proof -
  let ?kept = "\<exists>r \<in> set (messages_tbl s). hash_col r \<noteq> hash m \<and>
      channel_id r = channelId m \<and> hash m \<in> set (decodeHashList (parent_hashes r))"
  have ref: "referenced (snd (addMessage s m)) (channelId m) (hash m) \<longleftrightarrow>
      ?kept \<or> hash m \<in> set (parents m)"
    by (simp add: referenced_after_add [OF assms])
  have edge: "(channelId m, hash m) \<in> set (parents_tbl (snd (addMessage s m))) \<longleftrightarrow>
      ((channelId m, hash m) \<in> set (parents_tbl s) \<and> hash m \<notin> set (parents m)) \<or>
      hash m \<in> set (parents m)"
    by (simp add: edges_after_add [OF assms])
  have leaf: "hash m \<in> set (getLeafHashes (snd (addMessage s m)) (channelId m)) \<longleftrightarrow>
      (channelId m, hash m) \<notin> set (parents_tbl (snd (addMessage s m)))"
    using new_row_stored [OF assms] by (simp add: leaf_iff)
  show ?thesis
    unfolding leaf edge ref no_stale_row_def by blast
qed

lemma edges_exact_add:
  assumes "edges_exact s" and "fst (addMessage s m) = Inr ()"
    and "\<forall>r \<in> set (messages_tbl s). hash_col r = hash m \<longrightarrow>
           channel_id r = channelId m \<and> decodeHashList (parent_hashes r) = parents m"
    and "\<forall>e \<in> set (parents_tbl s). snd e \<in> set (parents m) \<longrightarrow> fst e = channelId m"
  shows "edges_exact (snd (addMessage s m))"
  using assms(1)
  unfolding edges_exact_def referenced_add [OF assms(2,3)] edges_add [OF assms(2,4)]
  by simp

lemma unshared_run_exact: "unshared_run s \<Longrightarrow> edges_exact s"
  by (induction rule: unshared_run.induct)
    (simp_all add: edges_exact_empty edges_exact_add edges_exact_remove)

lemma leaves_exact:
  assumes "edges_exact s"
  shows "getLeafHashes s c = unreferenced_hashes s c"
proof -
  have eq: "hash_col r \<notin> set (map snd (filter (\<lambda>e. fst e = c) (parents_tbl s)))
      \<longleftrightarrow> \<not> referenced s c (hash_col r)" for r
  proof -
    have "hash_col r \<in> set (map snd (filter (\<lambda>e. fst e = c) (parents_tbl s)))
        \<longleftrightarrow> (c, hash_col r) \<in> set (parents_tbl s)"
      by force
    then show ?thesis using assms by (simp add: edges_exact_def)
  qed
  show ?thesis
    unfolding getLeafHashes_def unreferenced_hashes_def eq ..
qed

lemma unshared_run_no_stale_row:
  assumes "unshared_run s"
    and "\<forall>r \<in> set (messages_tbl s). hash_col r = hash m \<longrightarrow>
           channel_id r = channelId m \<and> decodeHashList (parent_hashes r) = parents m"
  shows "no_stale_row s m"
  unfolding no_stale_row_def
proof
  assume "(channelId m, hash m) \<in> set (parents_tbl s)"
  then have "referenced s (channelId m) (hash m)"
    using unshared_run_exact [OF assms(1)] by (simp add: edges_exact_def)
  then obtain r where r: "r \<in> set (messages_tbl s)" "channel_id r = channelId m"
      "hash m \<in> set (decodeHashList (parent_hashes r))"
    unfolding referenced_def by blast
  show "hash m \<in> set (parents m) \<or>
        (\<exists>r \<in> set (messages_tbl s). hash_col r \<noteq> hash m \<and> channel_id r = channelId m \<and>
            hash m \<in> set (decodeHashList (parent_hashes r)))"
  proof (cases "hash_col r = hash m")
    case True
    then have "decodeHashList (parent_hashes r) = parents m"
      using assms(2) r(1) by blast
    then show ?thesis using r(3) by simp
  next
    case False
    then show ?thesis using r by blast
  qed
qed

text \<open>
  Claim C4, as stated: in every reachable store, also when one hash has been recorded as
  a parent in more than one channel, \<open>getLeafHashes\<close> returns exactly the hashes of the
  channel's messages that no message of that channel lists as a parent. In
  \<open>two_channels\<close> the message \<open>b\<close> of channel A and the message \<open>c\<close> of channel B both
  list \<open>a\<close>; the key of \<open>parents\<close> is the hash alone, so the row of \<open>a\<close> now belongs
  to channel B, and \<open>a\<close> is returned as a leaf of channel A although \<open>b\<close> references
  it there.
\<close>

theorem leaf_hashes_shared_parent_counterexample:
  "reachable two_channels \<and>
   [97] \<in> set (getLeafHashes two_channels channel_A) \<and>
   referenced two_channels channel_A [97] \<and>
   getLeafHashes two_channels channel_A \<noteq> unreferenced_hashes two_channels channel_A"
proof -
  have "reachable two_channels"
    unfolding two_channels_def by (intro reachable_add_all reachable.opened)
  then show ?thesis
    by (simp add: two_channels_eq getLeafHashes_def referenced_def unreferenced_hashes_def
        channel_A_def)
qed

text \<open>
  Claim C4, amended. In every store reached from the empty store by
  \<open>removeChannelMessages\<close> and by \<open>addMessage\<close> calls that insert a hash not stored
  yet (or stored with the same channel and parents) and list as parents only hashes not
  recorded as a parent under another channel, \<open>getLeafHashes\<close> returns exactly the
  hashes of the messages stored in the channel that no message of that channel lists as
  a parent. In every store whatever, after a successful \<open>addMessage\<close> (of a message
  whose parents are leaves, or any other) none of its parents is a leaf of its channel,
  and the new message is a leaf of its channel if nothing references it, provided no
  stale row of \<open>parents\<close> names its hash.
\<close>

theorem leaf_hashes_amended:
  "(unshared_run s \<longrightarrow> getLeafHashes s c = unreferenced_hashes s c) \<and>
   (fst (addMessage s m) = Inr () \<longrightarrow>
      (\<forall>p \<in> set (parents m).
          p \<notin> set (getLeafHashes (snd (addMessage s m)) (channelId m))) \<and>
      (no_stale_row s m \<longrightarrow>
       \<not> referenced (snd (addMessage s m)) (channelId m) (hash m) \<longrightarrow>
          hash m \<in> set (getLeafHashes (snd (addMessage s m)) (channelId m))))"
proof (intro conjI impI ballI)
  assume "unshared_run s"
  then show "getLeafHashes s c = unreferenced_hashes s c"
    by (intro leaves_exact unshared_run_exact)
next
  fix p
  assume "fst (addMessage s m) = Inr ()" and "p \<in> set (parents m)"
  then show "p \<notin> set (getLeafHashes (snd (addMessage s m)) (channelId m))"
    by (rule parents_leave_leaf_set)
next
  assume ok: "fst (addMessage s m) = Inr ()" and "no_stale_row s m"
    and "\<not> referenced (snd (addMessage s m)) (channelId m) (hash m)"
  then show "hash m \<in> set (getLeafHashes (snd (addMessage s m)) (channelId m))"
    using new_leaf_iff_no_stale_row [OF ok] by blast
qed

lemma four_messages_run: "unshared_run four_messages"
proof -
  let ?a = "msg channel_A 97 0 []" and ?c = "msg channel_A 99 1 [97]"
  let ?b = "msg channel_A 98 1 [97]" and ?d = "msg channel_A 100 2 [98, 99]"
  let ?s1 = "snd (addMessage empty_store ?a)"
  let ?s2 = "snd (addMessage ?s1 ?c)"
  let ?s3 = "snd (addMessage ?s2 ?b)"
  have r1: "unshared_run ?s1"
    by (rule unshared_run.add [OF unshared_run.start]) (simp_all add: eval_defs)
  have r2: "unshared_run ?s2"
    by (rule unshared_run.add [OF r1]) (simp_all add: eval_defs)
  have r3: "unshared_run ?s3"
    by (rule unshared_run.add [OF r2]) (simp_all add: eval_defs)
  have "unshared_run (snd (addMessage ?s3 ?d))"
    by (rule unshared_run.add [OF r3]) (simp_all add: eval_defs)
  then show ?thesis
    by (simp add: four_messages_def add_all_def)
qed

theorem leaf_hashes_amended_witness:
  "getLeafHashes four_messages channel_A = [[100]] \<and>
   unreferenced_hashes four_messages channel_A = [[100]] \<and>
   [98] \<in> set (getLeafHashes two_channels channel_A) \<and>
   [98] \<notin> set (getLeafHashes (snd (addMessage two_channels (msg channel_A 100 2 [98])))
            channel_A) \<and>
   [100] \<in> set (getLeafHashes (snd (addMessage two_channels (msg channel_A 100 2 [98])))
            channel_A)"
proof -
  let ?d = "msg channel_A 100 2 [98]"
  have leaves: "getLeafHashes four_messages channel_A = [[100]]"
    by (simp add: four_messages_eq getLeafHashes_def channel_A_def)
  have "unshared_run four_messages \<longrightarrow>
      getLeafHashes four_messages channel_A = unreferenced_hashes four_messages channel_A"
    using leaf_hashes_amended [of four_messages channel_A ?d] by (rule conjunct1)
  then have first: "unreferenced_hashes four_messages channel_A = [[100]]"
    using four_messages_run leaves by simp
  have before: "[98] \<in> set (getLeafHashes two_channels channel_A)"
    by (simp add: two_channels_eq getLeafHashes_def channel_A_def)
  have ok: "fst (addMessage two_channels ?d) = Inr ()"
    by (simp add: eval_defs)
  have d: "channelId ?d = channel_A" "hash ?d = [100]" "parents ?d = [[98]]"
    by (simp_all add: msg_def)
  have fresh: "no_stale_row two_channels ?d"
    by (simp add: no_stale_row_def two_channels_eq msg_def channel_A_def)
  have unref: "\<not> referenced (snd (addMessage two_channels ?d)) channel_A [100]"
    by (simp add: referenced_def two_channels_eq eval_defs)
  have "fst (addMessage two_channels ?d) = Inr () \<longrightarrow>
      (\<forall>p \<in> set (parents ?d).
          p \<notin> set (getLeafHashes (snd (addMessage two_channels ?d)) (channelId ?d))) \<and>
      (no_stale_row two_channels ?d \<longrightarrow>
       \<not> referenced (snd (addMessage two_channels ?d)) (channelId ?d) (hash ?d) \<longrightarrow>
          hash ?d \<in> set (getLeafHashes (snd (addMessage two_channels ?d)) (channelId ?d)))"
    using leaf_hashes_amended [of two_channels channel_A ?d] by (rule conjunct2)
  with ok fresh unref
  have "[98] \<notin> set (getLeafHashes (snd (addMessage two_channels ?d)) channel_A)"
    and "[100] \<in> set (getLeafHashes (snd (addMessage two_channels ?d)) channel_A)"
    unfolding d by simp_all
  with leaves first before show ?thesis by simp
qed

lemma unshared_run_clear: "unshared_run (clear s)"
  using unshared_run.start by (simp add: clear_def empty_store_def)

lemma unshared_run_reachable: "unshared_run s \<Longrightarrow> reachable s"
  by (induction rule: unshared_run.induct) (auto intro: reachable.intros)

text \<open>
  Why the runs above exclude the replacement of a stored message by one with other
  parents: \<open>REPLACE INTO messages\<close> drops the old row, but the rows its parents
  received in \<open>parents\<close> stay. After \<open>b\<close> is stored again without parents, \<open>a\<close> is
  referenced by no message and still is not returned as a leaf.
\<close>

lemma leaf_hashes_after_replacement:
  "getLeafHashes replaced_parent channel_A = [[98]] \<and>
   unreferenced_hashes replaced_parent channel_A = [[97], [98]]"
  by (simp add: replaced_parent_def eval_defs getLeafHashes_def unreferenced_hashes_def
      referenced_def)

text \<open>
  Why the new message needs \<open>no_stale_row\<close>: in \<open>stale_row\<close> the row of \<open>a\<close> in
  \<open>parents\<close> is left from the first version of \<open>b\<close>. When \<open>a\<close> is added, nothing
  references it and it is not returned as a leaf.
\<close>

lemma new_message_behind_stale_row:
  "fst (addMessage stale_row (msg channel_A 97 0 [])) = Inr () \<and>
   \<not> no_stale_row stale_row (msg channel_A 97 0 []) \<and>
   \<not> referenced (snd (addMessage stale_row (msg channel_A 97 0 []))) channel_A [97] \<and>
   getLeafHashes (snd (addMessage stale_row (msg channel_A 97 0 []))) channel_A = [[98]]"
  by (simp add: stale_row_def eval_defs no_stale_row_def referenced_def getLeafHashes_def)

end
